theory Spec2Isabelle
  imports Main "HOL-Library.Mapping" "HOL-Library.AList_Mapping" "HOL-Library.Multiset"
begin

section \<open>The session store of \<open>session-model.ts\<close>\<close>

text \<open>
  The module keeps two objects used as dictionaries, \<open>sessions\<close> and
  \<open>persistTimeouts\<close>, and talks to three collaborators that are not part of it:
  the timers of the event loop (\<open>setTimeout\<close>, \<open>clearTimeout\<close>, \<open>setInterval\<close>),
  the SQLite client and the redis client. The embedding passes the module's state
  explicitly (record \<open>world\<close>), reads \<open>process.env\<close> and \<open>JSON\<close> from a record
  \<open>platform\<close>, and takes what the two clients answer from a record \<open>backends\<close>.

  Both dictionaries are modelled as mappings. A JavaScript object also answers for the
  property names it inherits from \<open>Object.prototype\<close>; session ids are taken not
  to be such names.

  An \<open>async\<close> function runs up to its first \<open>await\<close> when it is called. What
  follows an \<open>await\<close> runs later, as an event of its own, once the awaited call has
  settled, and other events may come in between: the state keeps the list \<open>waiting\<close>
  of the calls that wait at an \<open>await\<close>.
\<close>

subsection \<open>Data\<close>

text \<open>
  Modelled from the spec: the type \<open>ISession\<close> (section 3, SessionRecord), which is
  declared in \<open>./isession\<close>. The module reads \<open>id\<close> (here \<open>session_id\<close>) and
  \<open>expiresAt\<close> only; every other field is carried in \<open>payload\<close>.
\<close>

record session =
  session_id :: string
  expiresAt :: int
  payload :: string

text \<open>
  \<open>process.env\<close> gives a string or \<open>undefined\<close>; \<open>JSON.parse\<close> gives \<open>None\<close>
  where it throws (the cast \<open>as ISession\<close> types every other result as a session).
\<close>

record platform =
  USE_SESSION_DB :: "string option"
  USE_REDIS :: "string option"
  REDIS_NAMESPACE :: "string option"
  JSON_stringify :: "session \<Rightarrow> string"
  JSON_parse :: "string \<Rightarrow> session option"

definition truthy :: "string option \<Rightarrow> bool" where
  "truthy v = (case v of None \<Rightarrow> False | Some s \<Rightarrow> s \<noteq> [])"

definition template :: "string option \<Rightarrow> string" where
  "template v = (case v of None \<Rightarrow> ''undefined'' | Some s \<Rightarrow> s)"

definition getRedisKeyMatcher :: "platform \<Rightarrow> string" where
  "getRedisKeyMatcher p = template (REDIS_NAMESPACE p) @ '':session:*''"

definition buildRedisKey :: "platform \<Rightarrow> string \<Rightarrow> string" where
  "buildRedisKey p sessionId = template (REDIS_NAMESPACE p) @ '':session:'' @ sessionId"

text \<open>
  The calls that change a backend, in the order the module issues them:
  the \<open>INSERT ... ON CONFLICT DO UPDATE\<close> and the \<open>DELETE\<close> of the SQLite client,
  \<open>SET key value PX ttl\<close> and \<open>DEL key\<close> of the redis client.
\<close>

datatype backend_call =
  DbInsert string string
  | DbDelete string
  | RedisSet string string int
  | RedisDel string

datatype log_entry =
  LogInfo string int
  | LogError string string session int

datatype settled = Fulfilled | Rejected string

text \<open>
  Modelled from the spec: the relational and the key/value client (section 6,
  \<open>loadAll\<close>, \<open>upsert\<close>, \<open>delete\<close>, \<open>scan\<close>, \<open>multiGet\<close>, \<open>setWithExpiry\<close>), which
  live in \<open>../lib/sqlite\<close> and \<open>../lib/redis\<close>. A read answers with an error or with
  its result; \<open>outcome k\<close> is the error, if any, with which the \<open>k\<close>-th changing call
  is rejected.
\<close>

record backends =
  db_all :: "string + string option list"
  redis_scan :: "string \<Rightarrow> string \<Rightarrow> string + (string \<times> string list)"
  redis_mget :: "string list \<Rightarrow> string + string option list"
  outcome :: "nat \<Rightarrow> string option"

text \<open>
  One pending timeout of the event loop: its handle, the time from which it may run,
  and the session id its callback \<open>() => persist(session.id)\<close> passes on.
\<close>

record timer =
  handle :: nat
  due :: int
  target :: string

text \<open>
  A call that waits at an \<open>await\<close>, with the local variables it uses afterwards and
  the way the awaited backend call settles: \<open>persist\<close> at \<open>await db.run\<close> and at
  \<open>await setAsync\<close> (the session and the TTL it read before), \<open>remove\<close> at
  \<open>await db.run\<close> and at \<open>await delAsync\<close>.
\<close>

datatype task =
  PersistDb session int "string option"
  | PersistRedis session int "string option"
  | RemoveDb string "string option"
  | RemoveRedis string "string option"

record world =
  sessions :: "(string, session) mapping"
  persistTimeouts :: "(string, nat) mapping"
  timers :: "timer list"
  next_handle :: nat
  clock :: int
  calls :: "backend_call list"
  logs :: "log_entry list"
  waiting :: "task list"

definition initial :: world where
  "initial = \<lparr>sessions = Mapping.empty, persistTimeouts = Mapping.empty, timers = [],
     next_handle = 1, clock = 0, calls = [], logs = [], waiting = []\<rparr>"

subsection \<open>Collaborators\<close>

text \<open>
  Modelled from the spec: a changing call to a backend is appended to \<open>calls\<close> and
  settles as \<open>outcome\<close> says for its position.
\<close>

definition issue :: "backends \<Rightarrow> backend_call \<Rightarrow> world \<Rightarrow> string option \<times> world" where
  "issue b c w = (outcome b (length (calls w)), w\<lparr>calls := calls w @ [c]\<rparr>)"

text \<open>
  \<open>setTimeout\<close> returns a fresh handle, which is truthy, and the callback may run once
  the delay has passed; \<open>clearTimeout\<close> drops the timeout with that handle.
\<close>

definition setTimeout :: "string \<Rightarrow> int \<Rightarrow> world \<Rightarrow> nat \<times> world" where
  "setTimeout sessionId delay w =
     (next_handle w,
      w\<lparr>timers := timers w @ [\<lparr>handle = next_handle w, due = clock w + delay, target = sessionId\<rparr>],
        next_handle := Suc (next_handle w)\<rparr>)"

definition clearTimeout :: "nat \<Rightarrow> world \<Rightarrow> world" where
  "clearTimeout h w = w\<lparr>timers := filter (\<lambda>t. handle t \<noteq> h) (timers w)\<rparr>"

subsection \<open>The exported functions\<close>

definition findById :: "string \<Rightarrow> world \<Rightarrow> session option" where
  "findById ident w = Mapping.lookup (sessions w) ident"

definition upsert :: "platform \<Rightarrow> session \<Rightarrow> world \<Rightarrow> world" where
  "upsert p s w =
     (let w1 = w\<lparr>sessions := Mapping.update (session_id s) s (sessions w)\<rparr> in
      if truthy (USE_SESSION_DB p) \<or> truthy (USE_REDIS p) then
        (let w2 = (case Mapping.lookup (persistTimeouts w1) (session_id s) of
                     Some h \<Rightarrow> clearTimeout h w1
                   | None \<Rightarrow> w1);
             (h, w3) = setTimeout (session_id s) 1000 w2
         in w3\<lparr>persistTimeouts := Mapping.update (session_id s) h (persistTimeouts w3)\<rparr>)
      else w1)"

text \<open>
  \<open>persist\<close> is an \<open>async\<close> function. First the whole call, with nothing else
  running while it waits: it returns how its promise settles, with the state it leaves.
  A rejected write is caught and logged. The redis write is issued after the awaited
  SQLite write has settled, with the session and the TTL read before.
\<close>

definition persist_db :: "platform \<Rightarrow> backends \<Rightarrow> string \<Rightarrow> session \<Rightarrow> int \<Rightarrow> world \<Rightarrow> world" where
  "persist_db p b sessionId s remainingTTL w =
     (case issue b (DbInsert sessionId (JSON_stringify p s)) w of
        (None, w1) \<Rightarrow> w1
      | (Some err, w1) \<Rightarrow>
          w1\<lparr>logs := logs w1 @ [LogError ''Could not persist session to DB'' err s remainingTTL]\<rparr>)"

definition persist_redis :: "platform \<Rightarrow> backends \<Rightarrow> session \<Rightarrow> int \<Rightarrow> world \<Rightarrow> world" where
  "persist_redis p b s remainingTTL w =
     (case issue b (RedisSet (buildRedisKey p (session_id s)) (JSON_stringify p s) remainingTTL) w of
        (None, w1) \<Rightarrow> w1
      | (Some err, w1) \<Rightarrow>
          w1\<lparr>logs := logs w1 @ [LogError ''Could not persist session'' err s remainingTTL]\<rparr>)"

definition persist :: "platform \<Rightarrow> backends \<Rightarrow> string \<Rightarrow> world \<Rightarrow> settled \<times> world" where
  "persist p b sessionId w =
     (if \<not> truthy (USE_SESSION_DB p) \<and> \<not> truthy (USE_REDIS p) then (Fulfilled, w)
      else
        (let w1 = w\<lparr>persistTimeouts := Mapping.delete sessionId (persistTimeouts w)\<rparr> in
         case Mapping.lookup (sessions w1) sessionId of
           None \<Rightarrow> (Fulfilled, w1)
         | Some s \<Rightarrow>
             (let remainingTTL = expiresAt s - clock w1 in
              if remainingTTL \<le> 0 then (Fulfilled, w1)
              else
                (let w2 = (if truthy (USE_SESSION_DB p)
                           then persist_db p b sessionId s remainingTTL w1 else w1);
                     w3 = (if truthy (USE_REDIS p)
                           then persist_redis p b s remainingTTL w2 else w2)
                 in (Fulfilled, w3)))))"

text \<open>
  \<open>remove\<close>, the whole call with nothing else running while it waits. It awaits
  both deletions without a handler: a rejected deletion rejects the promise \<open>remove\<close>
  returned, and what follows the \<open>await\<close> does not run.
\<close>

definition remove :: "platform \<Rightarrow> backends \<Rightarrow> string \<Rightarrow> world \<Rightarrow> settled \<times> world" where
  "remove p b ident w =
     (let w1 = w\<lparr>sessions := Mapping.delete ident (sessions w)\<rparr> in
      case (if truthy (USE_SESSION_DB p) then issue b (DbDelete ident) w1 else (None, w1)) of
        (Some err, w2) \<Rightarrow> (Rejected err, w2)
      | (None, w2) \<Rightarrow>
          (if truthy (USE_REDIS p) then
             (case issue b (RedisDel (buildRedisKey p ident)) w2 of
                (Some err, w3) \<Rightarrow> (Rejected err, w3)
              | (None, w3) \<Rightarrow> (Fulfilled, w3))
           else (Fulfilled, w2)))"

text \<open>
  The same two functions in the parts the event loop runs. \<open>persist_begin\<close> and
  \<open>remove_begin\<close> run the body up to its first \<open>await\<close>: the backend call is issued
  and the rest of the body joins \<open>waiting\<close>. \<open>resume\<close> runs what follows an
  \<open>await\<close> up to the next one.
\<close>

definition persist_begin :: "platform \<Rightarrow> backends \<Rightarrow> string \<Rightarrow> world \<Rightarrow> world" where
  "persist_begin p b sessionId w =
     (if \<not> truthy (USE_SESSION_DB p) \<and> \<not> truthy (USE_REDIS p) then w
      else
        (let w1 = w\<lparr>persistTimeouts := Mapping.delete sessionId (persistTimeouts w)\<rparr> in
         case Mapping.lookup (sessions w1) sessionId of
           None \<Rightarrow> w1
         | Some s \<Rightarrow>
             (let remainingTTL = expiresAt s - clock w1 in
              if remainingTTL \<le> 0 then w1
              else if truthy (USE_SESSION_DB p) then
                (case issue b (DbInsert sessionId (JSON_stringify p s)) w1 of
                   (out, w2) \<Rightarrow> w2\<lparr>waiting := waiting w2 @ [PersistDb s remainingTTL out]\<rparr>)
              else
                (case issue b (RedisSet (buildRedisKey p (session_id s)) (JSON_stringify p s)
                         remainingTTL) w1 of
                   (out, w2) \<Rightarrow> w2\<lparr>waiting := waiting w2 @ [PersistRedis s remainingTTL out]\<rparr>))))"

definition remove_begin :: "platform \<Rightarrow> backends \<Rightarrow> string \<Rightarrow> world \<Rightarrow> world" where
  "remove_begin p b ident w =
     (let w1 = w\<lparr>sessions := Mapping.delete ident (sessions w)\<rparr> in
      if truthy (USE_SESSION_DB p) then
        (case issue b (DbDelete ident) w1 of
           (out, w2) \<Rightarrow> w2\<lparr>waiting := waiting w2 @ [RemoveDb ident out]\<rparr>)
      else if truthy (USE_REDIS p) then
        (case issue b (RedisDel (buildRedisKey p ident)) w1 of
           (out, w2) \<Rightarrow> w2\<lparr>waiting := waiting w2 @ [RemoveRedis ident out]\<rparr>)
      else w1)"

fun resume :: "platform \<Rightarrow> backends \<Rightarrow> task \<Rightarrow> world \<Rightarrow> world" where
  "resume p b (PersistDb s remainingTTL out) w =
     (let w1 = (case out of
                  None \<Rightarrow> w
                | Some err \<Rightarrow>
                    w\<lparr>logs := logs w @
                      [LogError ''Could not persist session to DB'' err s remainingTTL]\<rparr>)
      in if truthy (USE_REDIS p) then
           (case issue b (RedisSet (buildRedisKey p (session_id s)) (JSON_stringify p s)
                    remainingTTL) w1 of
              (out', w2) \<Rightarrow> w2\<lparr>waiting := waiting w2 @ [PersistRedis s remainingTTL out']\<rparr>)
         else w1)"
| "resume p b (PersistRedis s remainingTTL out) w =
     (case out of
        None \<Rightarrow> w
      | Some err \<Rightarrow>
          w\<lparr>logs := logs w @ [LogError ''Could not persist session'' err s remainingTTL]\<rparr>)"
| "resume p b (RemoveDb ident out) w =
     (case out of
        Some err \<Rightarrow> w
      | None \<Rightarrow>
          if truthy (USE_REDIS p) then
            (case issue b (RedisDel (buildRedisKey p ident)) w of
               (out', w1) \<Rightarrow> w1\<lparr>waiting := waiting w1 @ [RemoveRedis ident out']\<rparr>)
          else w)"
| "resume p b (RemoveRedis ident out) w = w"

text \<open>The callback of \<open>setInterval(..., 60000)\<close>: one tick of the sweeper.\<close>

definition sweep :: "world \<Rightarrow> world" where
  "sweep w =
     (let now = clock w;
          previousSessionCount = int (Mapping.size (sessions w));
          w1 = w\<lparr>sessions := Mapping.filter (\<lambda>k s. expiresAt s - now > 0) (sessions w)\<rparr>;
          expiredSessionCount = previousSessionCount - int (Mapping.size (sessions w1))
      in if expiredSessionCount > 0
         then w1\<lparr>logs := logs w1 @ [LogInfo ''Cleaned up expired sessions'' expiredSessionCount]\<rparr>
         else w1)"

subsection \<open>Restoring\<close>

text \<open>
  The two \<open>forEach\<close> bodies. A falsy row or value is passed over, and so is one on
  which \<open>JSON.parse\<close> throws; the empty string is falsy.
\<close>

definition restore_row :: "platform \<Rightarrow> (string, session) mapping \<Rightarrow> string option \<Rightarrow> (string, session) mapping" where
  "restore_row p m sessionRow =
     (case sessionRow of
        None \<Rightarrow> m
      | Some v \<Rightarrow>
          (case JSON_parse p v of
             None \<Rightarrow> m
           | Some s \<Rightarrow> Mapping.update (session_id s) s m))"

definition restore_raw :: "platform \<Rightarrow> (string, session) mapping \<Rightarrow> string option \<Rightarrow> (string, session) mapping" where
  "restore_raw p m rawSession =
     (case rawSession of
        None \<Rightarrow> m
      | Some v \<Rightarrow>
          if v = [] then m
          else (case JSON_parse p v of
                  None \<Rightarrow> m
                | Some s \<Rightarrow> Mapping.update (session_id s) s m))"

text \<open>
  The \<open>do ... while (cursor !== '0')\<close> loop over the pages of \<open>SCAN\<close>. Nothing
  bounds the number of pages, so the loop is a partial function: \<open>None\<close> is a scan
  that never comes back to the cursor \<open>0\<close>.
\<close>

partial_function (option) scan_loop ::
  "(string \<Rightarrow> string + (string \<times> string list)) \<Rightarrow> string \<Rightarrow> string list
    \<Rightarrow> (string + string list) option"
where
  "scan_loop scan cursor keys =
     (case scan cursor of
        Inl err \<Rightarrow> Some (Inl err)
      | Inr (next, page) \<Rightarrow>
          if next \<noteq> ''0'' then scan_loop scan next (keys @ page)
          else Some (Inr (keys @ page)))"

declare scan_loop.simps [code]

text \<open>
  \<open>restore\<close> is the whole call, with nothing else running while it waits for a
  read: a read that a backend rejects rejects the promise \<open>restore\<close> returned, and
  what follows the \<open>await\<close> does not run.
\<close>

definition restore_db :: "platform \<Rightarrow> backends \<Rightarrow> world \<Rightarrow> settled \<times> world" where
  "restore_db p b w =
     (case db_all b of
        Inl err \<Rightarrow> (Rejected err, w)
      | Inr rawSessions \<Rightarrow>
          (let w1 = w\<lparr>sessions := foldl (restore_row p) (sessions w) rawSessions\<rparr>
           in (Fulfilled,
               w1\<lparr>logs := logs w1 @
                 [LogInfo ''Sessions restored from DB'' (int (Mapping.size (sessions w1)))]\<rparr>)))"

definition restore_redis :: "platform \<Rightarrow> backends \<Rightarrow> world \<Rightarrow> (settled \<times> world) option" where
  "restore_redis p b w =
     (case scan_loop (\<lambda>cursor. redis_scan b cursor (getRedisKeyMatcher p)) ''0'' [] of
        None \<Rightarrow> None
      | Some (Inl err) \<Rightarrow> Some (Rejected err, w)
      | Some (Inr keys) \<Rightarrow>
          (case (if keys \<noteq> [] then
                   (case redis_mget b keys of
                      Inl err \<Rightarrow> Inl err
                    | Inr rawSessions \<Rightarrow>
                        Inr (w\<lparr>sessions := foldl (restore_raw p) (sessions w) rawSessions\<rparr>))
                 else Inr w) of
             Inl err \<Rightarrow> Some (Rejected err, w)
           | Inr w1 \<Rightarrow>
               Some (Fulfilled,
                 w1\<lparr>logs := logs w1 @
                   [LogInfo ''Sessions restored from redis'' (int (Mapping.size (sessions w1)))]\<rparr>)))"

definition restore :: "platform \<Rightarrow> backends \<Rightarrow> world \<Rightarrow> (settled \<times> world) option" where
  "restore p b w =
     (case (if truthy (USE_SESSION_DB p) then restore_db p b w else (Fulfilled, w)) of
        (Rejected err, w1) \<Rightarrow> Some (Rejected err, w1)
      | (Fulfilled, w1) \<Rightarrow>
          if truthy (USE_REDIS p) then restore_redis p b w1 else Some (Fulfilled, w1))"

subsection \<open>The event loop\<close>

text \<open>
  What can happen to the module, one event at a time: a call of \<open>upsert\<close> or
  \<open>remove\<close> (up to its first \<open>await\<close>), a tick of the sweeper, time passing, the
  timers phase of the event loop, which calls \<open>persist\<close> for every timeout that is
  due, oldest first (each up to its first \<open>await\<close>), and the settling of the backend
  call that the \<open>k\<close>-th waiting call awaits, which runs that call up to its next
  \<open>await\<close>. A timeout that is due stays pending until a timers phase comes, and a
  waiting call stays where it is until its backend call settles, so a late callback, a
  slow backend and the calls that arrive meanwhile are all traces of the model.
\<close>

datatype event = Upsert session | Remove string | Sweep | Advance nat | TimersPhase | Settle nat

definition run_timers :: "platform \<Rightarrow> backends \<Rightarrow> world \<Rightarrow> world" where
  "run_timers p b w =
     foldl (\<lambda>w' t. persist_begin p b (target t) w')
       (w\<lparr>timers := filter (\<lambda>t. \<not> due t \<le> clock w) (timers w)\<rparr>)
       (filter (\<lambda>t. due t \<le> clock w) (timers w))"

definition settle :: "platform \<Rightarrow> backends \<Rightarrow> nat \<Rightarrow> world \<Rightarrow> world" where
  "settle p b k w =
     (if k < length (waiting w)
      then resume p b (waiting w ! k)
             (w\<lparr>waiting := take k (waiting w) @ drop (Suc k) (waiting w)\<rparr>)
      else w)"

fun step :: "platform \<Rightarrow> backends \<Rightarrow> world \<Rightarrow> event \<Rightarrow> world" where
  "step p b w (Upsert s) = upsert p s w"
| "step p b w (Remove ident) = remove_begin p b ident w"
| "step p b w Sweep = sweep w"
| "step p b w (Advance d) = w\<lparr>clock := clock w + int d\<rparr>"
| "step p b w TimersPhase = run_timers p b w"
| "step p b w (Settle k) = settle p b k w"

definition exec :: "platform \<Rightarrow> backends \<Rightarrow> event list \<Rightarrow> world \<Rightarrow> world" where
  "exec p b es w = foldl (step p b) w es"

section \<open>Observations on a run\<close>

definition enabled :: "platform \<Rightarrow> bool" where
  "enabled p = (truthy (USE_SESSION_DB p) \<or> truthy (USE_REDIS p))"

text \<open>
  A backend write for the session id \<open>i\<close>: the SQLite upsert of the row \<open>i\<close>, or
  the redis \<open>SET\<close> of the key built from \<open>i\<close>. Deletions are not writes.
\<close>

fun writes_session :: "platform \<Rightarrow> string \<Rightarrow> backend_call \<Rightarrow> bool" where
  "writes_session p i (DbInsert k v) = (k = i)"
| "writes_session p i (RedisSet k v ttl) = (k = buildRedisKey p i)"
| "writes_session p i (DbDelete k) = False"
| "writes_session p i (RedisDel k) = False"

definition writes_of :: "platform \<Rightarrow> string \<Rightarrow> world \<Rightarrow> backend_call list" where
  "writes_of p i w = filter (writes_session p i) (calls w)"

text \<open>The timeouts pending for one session id.\<close>

definition pending :: "string \<Rightarrow> world \<Rightarrow> timer list" where
  "pending i w = filter (\<lambda>t. target t = i) (timers w)"

text \<open>
  The two facts that hold of every state the module reaches: a record is stored under
  its own id, and a pending timeout is the one the registry names for its session: no
  handle is pending twice, and the registry holds handles that \<open>setTimeout\<close> has
  given out, each for one session.
\<close>

definition keyed :: "world \<Rightarrow> bool" where
  "keyed w = (\<forall>k s. Mapping.lookup (sessions w) k = Some s \<longrightarrow> session_id s = k)"

definition registered :: "world \<Rightarrow> bool" where
  "registered w =
     ((\<forall>t \<in> set (timers w). Mapping.lookup (persistTimeouts w) (target t) = Some (handle t)) \<and>
      distinct (map handle (timers w)) \<and>
      (\<forall>i h. Mapping.lookup (persistTimeouts w) i = Some h \<longrightarrow> h < next_handle w) \<and>
      (\<forall>i j h. Mapping.lookup (persistTimeouts w) i = Some h \<longrightarrow>
         Mapping.lookup (persistTimeouts w) j = Some h \<longrightarrow> i = j))"

text \<open>
  The calls one run of \<open>persist\<close> issues, read off the store and the clock at the time
  it starts.
\<close>

definition persist_calls :: "platform \<Rightarrow> string \<Rightarrow> world \<Rightarrow> backend_call list" where
  "persist_calls p i w =
     (case Mapping.lookup (sessions w) i of
        None \<Rightarrow> []
      | Some s \<Rightarrow>
          if expiresAt s - clock w \<le> 0 then []
          else (if truthy (USE_SESSION_DB p) then [DbInsert i (JSON_stringify p s)] else []) @
               (if truthy (USE_REDIS p)
                then [RedisSet (buildRedisKey p (session_id s)) (JSON_stringify p s)
                        (expiresAt s - clock w)]
                else []))"

text \<open>An event that calls \<open>upsert\<close> for the session id \<open>i\<close>.\<close>

fun upserts_id :: "string \<Rightarrow> event \<Rightarrow> bool" where
  "upserts_id i (Upsert r) = (session_id r = i)"
| "upserts_id i e = False"

text \<open>
  The writes for the session id \<open>i\<close> that are still to come from the calls that
  wait: a \<open>persist\<close> that waits for its SQLite write issues its redis write when
  that write has settled, with the record it read when it started. A write for \<open>i\<close>
  is committed when it has been issued or is still to come in this way.
\<close>

definition owed :: "platform \<Rightarrow> task \<Rightarrow> backend_call list" where
  "owed p t =
     (case t of
        PersistDb s remainingTTL out \<Rightarrow>
          if truthy (USE_REDIS p)
          then [RedisSet (buildRedisKey p (session_id s)) (JSON_stringify p s) remainingTTL]
          else []
      | _ \<Rightarrow> [])"

definition inflight :: "platform \<Rightarrow> string \<Rightarrow> world \<Rightarrow> backend_call list" where
  "inflight p i w = filter (writes_session p i) (concat (map (owed p) (waiting w)))"

definition committed :: "platform \<Rightarrow> string \<Rightarrow> world \<Rightarrow> backend_call multiset" where
  "committed p i w = mset (writes_of p i w) + mset (inflight p i w)"

text \<open>
  The writes that carry the record \<open>s\<close> at the time \<open>now\<close>: one for each backend
  that is switched on, the redis one with the TTL left.
\<close>

definition record_writes :: "platform \<Rightarrow> session \<Rightarrow> int \<Rightarrow> backend_call list" where
  "record_writes p s now =
     (if truthy (USE_SESSION_DB p) then [DbInsert (session_id s) (JSON_stringify p s)] else []) @
     (if truthy (USE_REDIS p)
      then [RedisSet (buildRedisKey p (session_id s)) (JSON_stringify p s) (expiresAt s - now)]
      else [])"

text \<open>
  A run of events during which the session id \<open>i\<close> stays within its quiet period:
  with \<open>t\<close> ms gone since the last \<open>upsert\<close> of \<open>i\<close>, less than 1000 ms have gone
  since the last \<open>upsert\<close> of \<open>i\<close> at every moment of the run. Any event may occur.
  \<open>since\<close> is the time gone since the last \<open>upsert\<close> of \<open>i\<close> at the end of the
  run, and \<open>last_value\<close> the record of that \<open>upsert\<close>.
\<close>

fun quiet :: "string \<Rightarrow> nat \<Rightarrow> event list \<Rightarrow> bool" where
  "quiet i t [] = True"
| "quiet i t (Upsert r # es) = quiet i (if session_id r = i then 0 else t) es"
| "quiet i t (Advance d # es) = (t + d < 1000 \<and> quiet i (t + d) es)"
| "quiet i t (Remove k # es) = quiet i t es"
| "quiet i t (Sweep # es) = quiet i t es"
| "quiet i t (TimersPhase # es) = quiet i t es"
| "quiet i t (Settle k # es) = quiet i t es"

fun since :: "string \<Rightarrow> nat \<Rightarrow> event list \<Rightarrow> nat" where
  "since i t [] = t"
| "since i t (Upsert r # es) = since i (if session_id r = i then 0 else t) es"
| "since i t (Advance d # es) = since i (t + d) es"
| "since i t (Remove k # es) = since i t es"
| "since i t (Sweep # es) = since i t es"
| "since i t (TimersPhase # es) = since i t es"
| "since i t (Settle k # es) = since i t es"

fun last_value :: "string \<Rightarrow> session \<Rightarrow> event list \<Rightarrow> session" where
  "last_value i r [] = r"
| "last_value i r (Upsert r' # es) = last_value i (if session_id r' = i then r' else r) es"
| "last_value i r (Advance d # es) = last_value i r es"
| "last_value i r (Remove k # es) = last_value i r es"
| "last_value i r (Sweep # es) = last_value i r es"
| "last_value i r (TimersPhase # es) = last_value i r es"
| "last_value i r (Settle k # es) = last_value i r es"

text \<open>
  What the two stores hold when \<open>restore\<close> runs, said without the code's loop: the
  relational store answers the query with \<open>rows\<close>; the scan of the key/value store
  for the keys \<open><namespace>:session:*\<close> answers page after page with \<open>pages\<close>,
  each page with the cursor of the next one and the last one with the cursor \<open>0\<close>;
  the multi-get of the keys of all pages answers with \<open>raws\<close>. A store that is
  switched off, or a scan that finds no key, contributes nothing.
\<close>

fun paged :: "(string \<Rightarrow> string + (string \<times> string list)) \<Rightarrow> string
    \<Rightarrow> (string \<times> string list) list \<Rightarrow> bool" where
  "paged scan cursor [] = False"
| "paged scan cursor [(next, page)] = (scan cursor = Inr (next, page) \<and> next = ''0'')"
| "paged scan cursor ((next, page) # later) =
     (scan cursor = Inr (next, page) \<and> next \<noteq> ''0'' \<and> paged scan next later)"

definition stored :: "platform \<Rightarrow> backends \<Rightarrow> string option list \<Rightarrow> (string \<times> string list) list
    \<Rightarrow> string option list \<Rightarrow> bool" where
  "stored p b rows pages raws =
     ((if truthy (USE_SESSION_DB p) then db_all b = Inr rows else rows = []) \<and>
      (if truthy (USE_REDIS p) then
         paged (\<lambda>cursor. redis_scan b cursor
                  ((case REDIS_NAMESPACE p of None \<Rightarrow> ''undefined'' | Some ns \<Rightarrow> ns) @ '':session:*''))
           ''0'' pages \<and>
         (if concat (map snd pages) = [] then raws = []
          else redis_mget b (concat (map snd pages)) = Inr raws)
       else raws = []))"

text \<open>
  The records whose stored blobs deserialize, in the order \<open>restore\<close> loads them:
  the rows of the relational store, then the values of the key/value store. A missing
  row or value and an empty value hold no blob.
\<close>

definition parse_row :: "platform \<Rightarrow> string option \<Rightarrow> session option" where
  "parse_row p sessionRow = (case sessionRow of None \<Rightarrow> None | Some v \<Rightarrow> JSON_parse p v)"

definition parse_raw :: "platform \<Rightarrow> string option \<Rightarrow> session option" where
  "parse_raw p rawSession =
     (case rawSession of None \<Rightarrow> None | Some v \<Rightarrow> if v = [] then None else JSON_parse p v)"

definition deserialized :: "platform \<Rightarrow> string option list \<Rightarrow> string option list \<Rightarrow> session list" where
  "deserialized p rows raws =
     List.map_filter (parse_row p) rows @ List.map_filter (parse_raw p) raws"

text \<open>The state \<open>restore\<close> leaves when its promise is fulfilled.\<close>

definition restored :: "platform \<Rightarrow> backends \<Rightarrow> world \<Rightarrow> world option" where
  "restored p b w =
     (case restore p b w of
        Some (Fulfilled, w') \<Rightarrow> Some w'
      | _ \<Rightarrow> None)"

definition insert_all :: "session list \<Rightarrow> (string, session) mapping \<Rightarrow> (string, session) mapping" where
  "insert_all ss m = foldl (\<lambda>m' s. Mapping.update (session_id s) s m') m ss"

subsection \<open>A small installation\<close>

text \<open>
  Concrete values on which the theorems are run: three records, a parser that knows
  four blobs and throws on every other one, both backends switched on.
\<close>

definition rec_a :: session where
  "rec_a = \<lparr>session_id = ''a'', expiresAt = 5000, payload = ''first''\<rparr>"

definition rec_a2 :: session where
  "rec_a2 = \<lparr>session_id = ''a'', expiresAt = 6000, payload = ''second''\<rparr>"

definition rec_b :: session where
  "rec_b = \<lparr>session_id = ''b'', expiresAt = 500, payload = ''short''\<rparr>"

definition demo_stringify :: "session \<Rightarrow> string" where
  "demo_stringify s = session_id s @ ''/'' @ payload s"

definition demo_parse :: "string \<Rightarrow> session option" where
  "demo_parse v =
     (if v = ''a/first'' then Some rec_a
      else if v = ''a/second'' then Some rec_a2
      else if v = ''b/short'' then Some rec_b
      else None)"

definition both :: platform where
  "both = \<lparr>USE_SESSION_DB = Some ''1'', USE_REDIS = Some ''1'', REDIS_NAMESPACE = Some ''pp'',
     JSON_stringify = demo_stringify, JSON_parse = demo_parse\<rparr>"

definition redis_only :: platform where
  "redis_only = both\<lparr>USE_SESSION_DB := None\<rparr>"

definition no_rows :: "string + string option list" where
  "no_rows = Inr []"

definition no_scan :: "string \<Rightarrow> string \<Rightarrow> string + (string \<times> string list)" where
  "no_scan cursor pattern = Inr (''0'', [])"

definition no_mget :: "string list \<Rightarrow> string + string option list" where
  "no_mget keys = Inr []"

definition never :: "nat \<Rightarrow> string option" where
  "never k = None"

definition always :: "nat \<Rightarrow> string option" where
  "always k = Some ''down''"

definition healthy :: backends where
  "healthy = \<lparr>db_all = no_rows, redis_scan = no_scan, redis_mget = no_mget, outcome = never\<rparr>"

definition broken :: backends where
  "broken = healthy\<lparr>outcome := always\<rparr>"

definition second_fails :: "nat \<Rightarrow> string option" where
  "second_fails k = (if k = 1 then Some ''down'' else None)"

definition redis_down :: backends where
  "redis_down = healthy\<lparr>outcome := second_fails\<rparr>"

text \<open>
  A relational store with one valid and one malformed row, and a key/value store whose
  scan takes two pages and finds one key; then a pair of stores that hold two different
  blobs for the same session.
\<close>

definition two_rows :: "string + string option list" where
  "two_rows = Inr [Some ''a/first'', Some ''{a/fir'']"

definition two_pages :: "string \<Rightarrow> string \<Rightarrow> string + (string \<times> string list)" where
  "two_pages cursor pattern =
     (if cursor = ''0'' then Inr (''17'', [''pp:session:b'']) else Inr (''0'', []))"

definition mget_b :: "string list \<Rightarrow> string + string option list" where
  "mget_b keys = Inr (map (\<lambda>k. if k = ''pp:session:b'' then Some ''b/short'' else None) keys)"

definition stocked :: backends where
  "stocked = \<lparr>db_all = two_rows, redis_scan = two_pages, redis_mget = mget_b, outcome = never\<rparr>"

definition one_row :: "string + string option list" where
  "one_row = Inr [Some ''a/first'']"

definition one_page :: "string \<Rightarrow> string \<Rightarrow> string + (string \<times> string list)" where
  "one_page cursor pattern = Inr (''0'', [''pp:session:a''])"

definition mget_a2 :: "string list \<Rightarrow> string + string option list" where
  "mget_a2 keys = Inr (map (\<lambda>k. if k = ''pp:session:a'' then Some ''a/second'' else None) keys)"

definition diverged :: backends where
  "diverged = \<lparr>db_all = one_row, redis_scan = one_page, redis_mget = mget_a2, outcome = never\<rparr>"

definition reloaded :: world where
  "reloaded =
     initial\<lparr>sessions := Mapping.update ''b'' rec_b (Mapping.update ''a'' rec_a Mapping.empty),
       logs := [LogInfo ''Sessions restored from DB'' 1, LogInfo ''Sessions restored from redis'' 2]\<rparr>"

section \<open>Effects of the operations\<close>

text \<open>
  What each operation changes and what it leaves alone, the preservation of
  \<open>keyed\<close> and \<open>registered\<close> by every event, and how the committed writes of a
  session id change with each event.
\<close>

lemma lookup_delete_if:
  "Mapping.lookup (Mapping.delete k m) k' = (if k = k' then None else Mapping.lookup m k')"
  by simp

lemma buildRedisKey_inj [simp]: "buildRedisKey p a = buildRedisKey p b \<longleftrightarrow> a = b"
  by (simp add: buildRedisKey_def)

lemma persist_fulfilled: "fst (persist p b i w) = Fulfilled"
  by (simp add: persist_def Let_def split: option.splits)

lemma persist_frame:
  "sessions (snd (persist p b i w)) = sessions w"
  "timers (snd (persist p b i w)) = timers w"
  "clock (snd (persist p b i w)) = clock w"
  "next_handle (snd (persist p b i w)) = next_handle w"
  "waiting (snd (persist p b i w)) = waiting w"
  by (simp_all add: persist_def persist_db_def persist_redis_def issue_def Let_def
      split: option.splits prod.splits)

lemma persist_registry:
  "persistTimeouts (snd (persist p b i w)) =
     (if enabled p then Mapping.delete i (persistTimeouts w) else persistTimeouts w)"
  by (simp add: persist_def persist_db_def persist_redis_def issue_def Let_def enabled_def
      split: option.splits prod.splits)

lemma persist_calls_eq:
  "calls (snd (persist p b i w)) = calls w @ (if enabled p then persist_calls p i w else [])"
  by (simp add: persist_def persist_db_def persist_redis_def issue_def Let_def enabled_def
      persist_calls_def split: option.splits prod.splits)

lemma persist_calls_cong:
  "sessions w' = sessions w \<Longrightarrow> clock w' = clock w \<Longrightarrow> persist_calls p i w' = persist_calls p i w"
  by (simp add: persist_calls_def split: option.splits)

lemma persist_calls_writes:
  "keyed w \<Longrightarrow>
   filter (writes_session p i) (persist_calls p j w) = (if j = i then persist_calls p i w else [])"
  by (auto simp: persist_calls_def keyed_def split: option.splits)

lemma persist_calls_all_writes:
  assumes "keyed w"
  shows "\<forall>c \<in> set (persist_calls p j w). writes_session p i c \<longleftrightarrow> j = i"
  using assms by (auto simp: persist_calls_def keyed_def split: option.splits)

lemma persist_begin_frame:
  "sessions (persist_begin p b i w) = sessions w"
  "timers (persist_begin p b i w) = timers w"
  "clock (persist_begin p b i w) = clock w"
  "next_handle (persist_begin p b i w) = next_handle w"
  "logs (persist_begin p b i w) = logs w"
  by (simp_all add: persist_begin_def issue_def Let_def split: option.splits prod.splits)

lemma persist_begin_registry:
  "persistTimeouts (persist_begin p b i w) =
     (if enabled p then Mapping.delete i (persistTimeouts w) else persistTimeouts w)"
  by (simp add: persist_begin_def issue_def Let_def enabled_def split: option.splits prod.splits)

lemma persist_begin_calls:
  "calls (persist_begin p b i w) = calls w @ (if enabled p then take 1 (persist_calls p i w) else [])"
  by (simp add: persist_begin_def issue_def Let_def enabled_def persist_calls_def
      split: option.splits prod.splits)

lemma persist_begin_committed:
  "committed p i (persist_begin p b j w) =
     committed p i w +
     mset (filter (writes_session p i) (if enabled p then persist_calls p j w else []))"
  by (simp add: persist_begin_def issue_def Let_def enabled_def persist_calls_def committed_def
      writes_of_def inflight_def owed_def split: option.splits prod.splits)

lemma fold_begin_frame:
  "sessions (foldl (\<lambda>w' t. persist_begin p b (target t) w') w ds) = sessions w"
  "timers (foldl (\<lambda>w' t. persist_begin p b (target t) w') w ds) = timers w"
  "clock (foldl (\<lambda>w' t. persist_begin p b (target t) w') w ds) = clock w"
  "next_handle (foldl (\<lambda>w' t. persist_begin p b (target t) w') w ds) = next_handle w"
  "logs (foldl (\<lambda>w' t. persist_begin p b (target t) w') w ds) = logs w"
  by (induction ds arbitrary: w; simp add: persist_begin_frame)+

lemma fold_begin_calls:
  "calls (foldl (\<lambda>w' t. persist_begin p b (target t) w') w ds) =
     calls w @ (if enabled p then concat (map (\<lambda>t. take 1 (persist_calls p (target t) w)) ds) else [])"
proof (induction ds arbitrary: w)
  case Nil
  show ?case by simp
next
  case (Cons t ds)
  have "persist_calls p i (persist_begin p b (target t) w) = persist_calls p i w" for i
    by (rule persist_calls_cong) (simp_all add: persist_begin_frame)
  then show ?case
    by (simp add: Cons.IH persist_begin_calls)
qed

lemma fold_begin_committed:
  "committed p i (foldl (\<lambda>w' t. persist_begin p b (target t) w') w ds) =
     committed p i w +
     (if enabled p
      then mset (concat (map (\<lambda>t. filter (writes_session p i) (persist_calls p (target t) w)) ds))
      else {#})"
proof (induction ds arbitrary: w)
  case Nil
  show ?case by simp
next
  case (Cons t ds)
  have "persist_calls p j (persist_begin p b (target t) w) = persist_calls p j w" for j
    by (rule persist_calls_cong) (simp_all add: persist_begin_frame)
  then show ?case
    by (cases "enabled p") (simp_all add: Cons.IH persist_begin_committed)
qed

lemma fold_begin_registry:
  "Mapping.lookup (persistTimeouts (foldl (\<lambda>w' t. persist_begin p b (target t) w') w ds)) k =
     (if enabled p \<and> k \<in> target ` set ds then None else Mapping.lookup (persistTimeouts w) k)"
proof (induction ds arbitrary: w)
  case Nil
  show ?case by simp
next
  case (Cons t ds)
  show ?case
    by (simp add: Cons.IH persist_begin_registry lookup_delete_if)
qed

lemma run_timers_frame:
  "sessions (run_timers p b w) = sessions w"
  "clock (run_timers p b w) = clock w"
  "next_handle (run_timers p b w) = next_handle w"
  "logs (run_timers p b w) = logs w"
  "timers (run_timers p b w) = filter (\<lambda>t. \<not> due t \<le> clock w) (timers w)"
  by (simp_all add: run_timers_def fold_begin_frame)

lemma run_timers_calls:
  "calls (run_timers p b w) =
     calls w @ (if enabled p
                then concat (map (\<lambda>t. take 1 (persist_calls p (target t) w))
                       (filter (\<lambda>t. due t \<le> clock w) (timers w)))
                else [])"
proof -
  have "persist_calls p i (w\<lparr>timers := ts\<rparr>) = persist_calls p i w" for i ts
    by (rule persist_calls_cong) simp_all
  then show ?thesis
    by (simp add: run_timers_def fold_begin_calls)
qed

lemma run_timers_registry:
  "Mapping.lookup (persistTimeouts (run_timers p b w)) k =
     (if enabled p \<and> k \<in> target ` {t \<in> set (timers w). due t \<le> clock w} then None
      else Mapping.lookup (persistTimeouts w) k)"
  by (simp add: run_timers_def fold_begin_registry)

lemma run_timers_pending:
  "pending i (run_timers p b w) = filter (\<lambda>t. \<not> due t \<le> clock w) (pending i w)"
  by (simp add: pending_def run_timers_frame conj_commute)

lemma concat_writes_of_target:
  assumes "keyed w" and "\<And>cs. set (f cs) \<subseteq> set cs"
  shows "concat (map (\<lambda>t. filter (writes_session p i) (f (persist_calls p (target t) w))) ds) =
         concat (map (\<lambda>t. f (persist_calls p i w)) (filter (\<lambda>t. target t = i) ds))"
proof -
  have "filter (writes_session p i) (f (persist_calls p j w)) =
      (if j = i then f (persist_calls p i w) else [])" for j
    using persist_calls_all_writes [OF assms(1), of p j i] assms(2) [of "persist_calls p j w"]
    by (auto simp: filter_empty_conv filter_id_conv)
  then show ?thesis
    by (induction ds) simp_all
qed

lemma run_timers_committed:
  assumes "keyed w"
  shows "committed p i (run_timers p b w) =
           committed p i w +
           (if enabled p
            then mset (concat (map (\<lambda>t. persist_calls p i w)
                         (filter (\<lambda>t. due t \<le> clock w) (pending i w))))
            else {#})"
proof -
  have c: "committed p i (w\<lparr>timers := ts\<rparr>) = committed p i w" for ts
    by (simp add: committed_def writes_of_def inflight_def)
  have pc: "persist_calls p j (w\<lparr>timers := ts\<rparr>) = persist_calls p j w" for j ts
    by (rule persist_calls_cong) simp_all
  have f: "filter (\<lambda>t. target t = i) (filter (\<lambda>t. due t \<le> clock w) (timers w)) =
      filter (\<lambda>t. due t \<le> clock w) (pending i w)"
    by (simp add: pending_def conj_commute)
  have "concat (map (\<lambda>t. filter (writes_session p i) (persist_calls p (target t) w))
        (filter (\<lambda>t. due t \<le> clock w) (timers w))) =
      concat (map (\<lambda>t. persist_calls p i w) (filter (\<lambda>t. due t \<le> clock w) (pending i w)))"
    using concat_writes_of_target [OF assms, of "\<lambda>cs. cs" p i
        "filter (\<lambda>t. due t \<le> clock w) (timers w)"]
    by (simp only: f)
  then show ?thesis
    by (simp add: run_timers_def fold_begin_committed c pc)
qed

lemma run_timers_writes:
  assumes "keyed w"
  shows "writes_of p i (run_timers p b w) =
           writes_of p i w @
           (if enabled p
            then concat (map (\<lambda>t. take 1 (persist_calls p i w))
                   (filter (\<lambda>t. due t \<le> clock w) (pending i w)))
            else [])"
proof -
  have f: "filter (\<lambda>t. target t = i) (filter (\<lambda>t. due t \<le> clock w) (timers w)) =
      filter (\<lambda>t. due t \<le> clock w) (pending i w)"
    by (simp add: pending_def conj_commute)
  have "set (take 1 cs) \<subseteq> set cs" for cs :: "backend_call list"
    by (rule set_take_subset)
  from concat_writes_of_target [OF assms this, of p i "filter (\<lambda>t. due t \<le> clock w) (timers w)"]
  have "concat (map (\<lambda>t. filter (writes_session p i) (take 1 (persist_calls p (target t) w)))
        (filter (\<lambda>t. due t \<le> clock w) (timers w))) =
      concat (map (\<lambda>t. take 1 (persist_calls p i w)) (filter (\<lambda>t. due t \<le> clock w) (pending i w)))"
    by (simp only: f)
  then show ?thesis
    by (simp add: writes_of_def run_timers_calls filter_concat comp_def)
qed

lemma upsert_frame:
  "sessions (upsert p s w) = Mapping.update (session_id s) s (sessions w)"
  "calls (upsert p s w) = calls w"
  "clock (upsert p s w) = clock w"
  "logs (upsert p s w) = logs w"
  by (simp_all add: upsert_def Let_def setTimeout_def clearTimeout_def
      split: option.splits prod.splits)

lemma upsert_disabled: "\<not> enabled p \<Longrightarrow> upsert p s w = w\<lparr>sessions := Mapping.update (session_id s) s (sessions w)\<rparr>"
  by (simp add: upsert_def enabled_def)

lemma upsert_timers:
  "enabled p \<Longrightarrow>
   timers (upsert p s w) =
     (case Mapping.lookup (persistTimeouts w) (session_id s) of
        None \<Rightarrow> timers w
      | Some h \<Rightarrow> filter (\<lambda>t. handle t \<noteq> h) (timers w)) @
     [\<lparr>handle = next_handle w, due = clock w + 1000, target = session_id s\<rparr>]"
  "enabled p \<Longrightarrow>
   persistTimeouts (upsert p s w) = Mapping.update (session_id s) (next_handle w) (persistTimeouts w)"
  "enabled p \<Longrightarrow> next_handle (upsert p s w) = Suc (next_handle w)"
  by (simp_all add: upsert_def Let_def setTimeout_def clearTimeout_def enabled_def
      split: option.splits prod.splits)

lemma registered_same_target:
  assumes "registered w" "t \<in> set (timers w)" "t' \<in> set (timers w)" "target t = target t'"
  shows "t = t'"
proof -
  from assms have "Some (handle t) = Some (handle t')"
    unfolding registered_def by metis
  moreover from assms(1) have "inj_on handle (set (timers w))"
    by (simp add: registered_def distinct_map)
  ultimately show ?thesis
    using assms(2,3) by (auto dest: inj_onD)
qed

lemma upsert_old_timers:
  assumes "registered w"
  shows "(case Mapping.lookup (persistTimeouts w) i of
            None \<Rightarrow> timers w
          | Some h \<Rightarrow> filter (\<lambda>t. handle t \<noteq> h) (timers w)) =
         filter (\<lambda>t. target t \<noteq> i) (timers w)"
proof (cases "Mapping.lookup (persistTimeouts w) i")
  case None
  with assms have "\<forall>t \<in> set (timers w). target t \<noteq> i"
    by (auto simp: registered_def)
  with None show ?thesis by simp
next
  case (Some h)
  have "handle t \<noteq> h \<longleftrightarrow> target t \<noteq> i" if "t \<in> set (timers w)" for t
  proof -
    from assms that have "Mapping.lookup (persistTimeouts w) (target t) = Some (handle t)"
      by (simp add: registered_def)
    with assms Some show ?thesis
      unfolding registered_def by (metis option.inject)
  qed
  with Some show ?thesis by (simp cong: filter_cong)
qed

lemma upsert_pending:
  assumes "registered w" "enabled p"
  shows "pending (session_id s) (upsert p s w) =
           [\<lparr>handle = next_handle w, due = clock w + 1000, target = session_id s\<rparr>]"
    and "i \<noteq> session_id s \<Longrightarrow> pending i (upsert p s w) = pending i w"
proof -
  have ts: "timers (upsert p s w) = filter (\<lambda>t. target t \<noteq> session_id s) (timers w) @
      [\<lparr>handle = next_handle w, due = clock w + 1000, target = session_id s\<rparr>]"
    using assms by (simp add: upsert_timers upsert_old_timers)
  show "pending (session_id s) (upsert p s w) =
           [\<lparr>handle = next_handle w, due = clock w + 1000, target = session_id s\<rparr>]"
    by (simp add: pending_def ts)
  show "pending i (upsert p s w) = pending i w" if "i \<noteq> session_id s"
    using that by (auto simp: pending_def ts intro: filter_cong)
qed

lemma registered_upsert:
  assumes "registered w"
  shows "registered (upsert p s w)"
proof (cases "enabled p")
  case False
  with assms show ?thesis
    by (simp add: upsert_disabled registered_def)
next
  case True
  let ?i = "session_id s"
  have ts: "timers (upsert p s w) = filter (\<lambda>t. target t \<noteq> ?i) (timers w) @
      [\<lparr>handle = next_handle w, due = clock w + 1000, target = ?i\<rparr>]"
    using assms True by (simp add: upsert_timers upsert_old_timers)
  have reg: "persistTimeouts (upsert p s w) = Mapping.update ?i (next_handle w) (persistTimeouts w)"
    and nh: "next_handle (upsert p s w) = Suc (next_handle w)"
    using True by (simp_all add: upsert_timers)
  have old: "handle t < next_handle w" if "t \<in> set (timers w)" for t
    using assms that unfolding registered_def by metis
  have 1: "\<forall>t \<in> set (timers (upsert p s w)).
      Mapping.lookup (persistTimeouts (upsert p s w)) (target t) = Some (handle t)"
    using assms by (auto simp: ts reg registered_def lookup_update')
  have "next_handle w \<notin> handle ` set (timers w)"
    using old by (metis imageE less_irrefl)
  then have 2: "distinct (map handle (timers (upsert p s w)))"
    using assms by (auto simp: ts registered_def distinct_map_filter)
  have 3: "\<forall>i h. Mapping.lookup (persistTimeouts (upsert p s w)) i = Some h \<longrightarrow>
      h < next_handle (upsert p s w)"
    using assms by (auto simp: reg nh registered_def lookup_update' less_Suc_eq split: if_splits)
  have 4: "\<forall>i j h. Mapping.lookup (persistTimeouts (upsert p s w)) i = Some h \<longrightarrow>
      Mapping.lookup (persistTimeouts (upsert p s w)) j = Some h \<longrightarrow> i = j"
  proof (intro allI impI)
    fix i j h
    assume a: "Mapping.lookup (persistTimeouts (upsert p s w)) i = Some h"
      and b: "Mapping.lookup (persistTimeouts (upsert p s w)) j = Some h"
    have fresh: "Mapping.lookup (persistTimeouts w) k \<noteq> Some (next_handle w)" for k
      using assms unfolding registered_def by (metis less_irrefl)
    show "i = j"
    proof (cases "i = ?i"; cases "j = ?i")
      assume "i \<noteq> ?i" "j \<noteq> ?i"
      with a b assms show ?thesis
        unfolding registered_def reg by (simp add: lookup_update')
    qed (use a b fresh in \<open>auto simp: reg lookup_update' split: if_splits\<close>)
  qed
  from 1 2 3 4 show ?thesis
    unfolding registered_def by blast
qed

lemma remove_frame:
  "sessions (snd (remove p b i w)) = Mapping.delete i (sessions w)"
  "persistTimeouts (snd (remove p b i w)) = persistTimeouts w"
  "timers (snd (remove p b i w)) = timers w"
  "next_handle (snd (remove p b i w)) = next_handle w"
  "clock (snd (remove p b i w)) = clock w"
  "logs (snd (remove p b i w)) = logs w"
  "waiting (snd (remove p b i w)) = waiting w"
  by (simp_all add: remove_def issue_def Let_def split: option.splits prod.splits)

lemma remove_calls:
  "calls (snd (remove p b i w)) =
     calls w @ (if truthy (USE_SESSION_DB p) then [DbDelete i] else []) @
       (if truthy (USE_REDIS p) \<and>
           (truthy (USE_SESSION_DB p) \<longrightarrow> outcome b (length (calls w)) = None)
        then [RedisDel (buildRedisKey p i)] else [])"
  by (simp add: remove_def issue_def Let_def split: option.splits prod.splits)

lemma sweep_frame:
  "sessions (sweep w) = Mapping.filter (\<lambda>k s. expiresAt s - clock w > 0) (sessions w)"
  "persistTimeouts (sweep w) = persistTimeouts w"
  "timers (sweep w) = timers w"
  "next_handle (sweep w) = next_handle w"
  "clock (sweep w) = clock w"
  "calls (sweep w) = calls w"
  by (simp_all add: sweep_def Let_def)

lemma length_pending:
  assumes "registered w"
  shows "length (pending i w) \<le> 1"
proof (cases "pending i w")
  case Nil
  then show ?thesis by simp
next
  case (Cons t ts)
  show ?thesis
  proof (cases ts)
    case Nil
    with Cons show ?thesis by simp
  next
    case (Cons t' ts')
    with \<open>pending i w = t # ts\<close> have eq: "pending i w = t # t' # ts'" by simp
    then have "t \<in> set (pending i w)" "t' \<in> set (pending i w)" by simp_all
    then have "t \<in> set (timers w)" "t' \<in> set (timers w)" "target t = target t'"
      by (simp_all add: pending_def)
    then have "t = t'" by (rule registered_same_target [OF assms])
    moreover have "distinct (pending i w)"
      using assms by (simp add: registered_def pending_def distinct_map)
    ultimately show ?thesis using eq by simp
  qed
qed

lemma filter_empty_mapping: "Mapping.filter P Mapping.empty = Mapping.empty"
  by (rule mapping_eqI) (simp add: lookup_filter)

lemma remove_begin_frame:
  "sessions (remove_begin p b i w) = Mapping.delete i (sessions w)"
  "persistTimeouts (remove_begin p b i w) = persistTimeouts w"
  "timers (remove_begin p b i w) = timers w"
  "next_handle (remove_begin p b i w) = next_handle w"
  "clock (remove_begin p b i w) = clock w"
  "logs (remove_begin p b i w) = logs w"
  by (simp_all add: remove_begin_def issue_def Let_def split: prod.splits)

lemma remove_begin_committed: "committed p i (remove_begin p b j w) = committed p i w"
  by (simp add: remove_begin_def issue_def Let_def committed_def writes_of_def inflight_def
      owed_def split: prod.splits)

lemma remove_begin_writes: "writes_of p i (remove_begin p b j w) = writes_of p i w"
  by (simp add: remove_begin_def issue_def Let_def writes_of_def split: prod.splits)

lemma remove_begin_inflight: "inflight p i (remove_begin p b j w) = inflight p i w"
  by (simp add: remove_begin_def issue_def Let_def inflight_def owed_def split: prod.splits)

lemma resume_frame:
  "sessions (resume p b t w) = sessions w"
  "persistTimeouts (resume p b t w) = persistTimeouts w"
  "timers (resume p b t w) = timers w"
  "next_handle (resume p b t w) = next_handle w"
  "clock (resume p b t w) = clock w"
  by (cases t; simp add: issue_def Let_def split: option.splits prod.splits)+

lemma settle_frame:
  "sessions (settle p b k w) = sessions w"
  "persistTimeouts (settle p b k w) = persistTimeouts w"
  "timers (settle p b k w) = timers w"
  "next_handle (settle p b k w) = next_handle w"
  "clock (settle p b k w) = clock w"
  by (simp_all add: settle_def resume_frame)

lemma resume_committed:
  "committed p i (resume p b t w) = committed p i w + mset (filter (writes_session p i) (owed p t))"
  by (cases t)
    (simp_all add: issue_def Let_def committed_def writes_of_def inflight_def owed_def
      split: option.splits prod.splits)

lemma inflight_without:
  assumes "k < length (waiting w)"
  shows "mset (inflight p i (w\<lparr>waiting := take k (waiting w) @ drop (Suc k) (waiting w)\<rparr>)) +
         mset (filter (writes_session p i) (owed p (waiting w ! k))) =
         mset (inflight p i w)"
proof -
  have "waiting w = take k (waiting w) @ waiting w ! k # drop (Suc k) (waiting w)"
    using assms by (rule id_take_nth_drop)
  then have "inflight p i w =
      filter (writes_session p i)
        (concat (map (owed p) (take k (waiting w) @ waiting w ! k # drop (Suc k) (waiting w))))"
    by (simp add: inflight_def)
  then show ?thesis
    by (simp add: inflight_def)
qed

lemma settle_committed: "committed p i (settle p b k w) = committed p i w"
proof (cases "k < length (waiting w)")
  case True
  let ?w' = "w\<lparr>waiting := take k (waiting w) @ drop (Suc k) (waiting w)\<rparr>"
  have "committed p i ?w' + mset (filter (writes_session p i) (owed p (waiting w ! k))) =
      committed p i w"
    using inflight_without [OF True, of p i] by (simp add: committed_def writes_of_def)
  with True show ?thesis
    by (simp add: settle_def resume_committed)
next
  case False
  then show ?thesis by (simp add: settle_def)
qed

lemma upsert_waiting: "waiting (upsert p s w) = waiting w"
  by (simp add: upsert_def Let_def setTimeout_def clearTimeout_def
      split: option.splits prod.splits)

lemma upsert_committed: "committed p i (upsert p s w) = committed p i w"
  by (simp add: committed_def writes_of_def inflight_def upsert_frame upsert_waiting)

lemma sweep_committed: "committed p i (sweep w) = committed p i w"
  by (simp add: committed_def writes_of_def inflight_def sweep_def Let_def)

lemma committed_step:
  assumes "keyed w"
  shows "committed p i (step p b w e) =
           committed p i w +
           (if e = TimersPhase \<and> enabled p
            then mset (concat (map (\<lambda>t. persist_calls p i w)
                         (filter (\<lambda>t. due t \<le> clock w) (pending i w))))
            else {#})"
proof (cases e)
  case TimersPhase
  then show ?thesis by (simp add: run_timers_committed [OF assms])
next
  case (Advance d)
  then show ?thesis by (simp add: committed_def writes_of_def inflight_def)
qed (simp_all add: upsert_committed remove_begin_committed sweep_committed settle_committed)

lemma resume_calls: "\<exists>cs. calls (resume p b t w) = calls w @ cs"
  by (cases t) (simp_all add: issue_def Let_def split: option.splits prod.splits)

lemma step_calls: "\<exists>cs. calls (step p b w e) = calls w @ cs"
proof (cases e)
  case (Settle k)
  then show ?thesis
    using resume_calls [of p b "waiting w ! k" "w\<lparr>waiting := take k (waiting w) @ drop (Suc k) (waiting w)\<rparr>"]
    by (simp add: settle_def)
qed (simp_all add: upsert_frame remove_begin_def issue_def Let_def sweep_def run_timers_calls
      split: prod.splits)

lemma exec_calls: "\<exists>cs. calls (exec p b es w) = calls w @ cs"
proof (induction es arbitrary: w)
  case Nil
  show ?case by (simp add: exec_def)
next
  case (Cons e es)
  obtain cs where "calls (step p b w e) = calls w @ cs"
    using step_calls by blast
  moreover obtain cs' where "calls (exec p b es (step p b w e)) = calls (step p b w e) @ cs'"
    using Cons.IH by blast
  ultimately show ?case
    by (simp add: exec_def)
qed

lemma stale_writes:
  assumes "committed p i w' = committed p i w" and "calls w' = calls w @ cs"
  shows "writes_of p i w' = writes_of p i w @ filter (writes_session p i) cs \<and>
         mset (filter (writes_session p i) cs) + mset (inflight p i w') = mset (inflight p i w)"
  using assms by (simp add: committed_def writes_of_def)

lemma registered_run_timers:
  assumes "registered w"
  shows "registered (run_timers p b w)"
proof -
  have keep: "Mapping.lookup (persistTimeouts (run_timers p b w)) (target t) = Some (handle t)"
    if "t \<in> set (timers w)" "\<not> due t \<le> clock w" for t
  proof -
    have "target t \<notin> target ` {t' \<in> set (timers w). due t' \<le> clock w}"
      using registered_same_target [OF assms that(1)] that(2) by auto
    moreover have "Mapping.lookup (persistTimeouts w) (target t) = Some (handle t)"
      using assms that(1) by (simp add: registered_def)
    ultimately show ?thesis
      by (simp add: run_timers_registry)
  qed
  have sub: "Mapping.lookup (persistTimeouts w) i = Some h"
    if "Mapping.lookup (persistTimeouts (run_timers p b w)) i = Some h" for i h
    using that by (simp add: run_timers_registry split: if_splits)
  show ?thesis
    unfolding registered_def
  proof (intro conjI allI impI ballI)
    fix t assume "t \<in> set (timers (run_timers p b w))"
    then show "Mapping.lookup (persistTimeouts (run_timers p b w)) (target t) = Some (handle t)"
      by (simp add: run_timers_frame keep)
  next
    show "distinct (map handle (timers (run_timers p b w)))"
      using assms by (simp add: run_timers_frame registered_def distinct_map_filter)
  next
    fix i h assume "Mapping.lookup (persistTimeouts (run_timers p b w)) i = Some h"
    then show "h < next_handle (run_timers p b w)"
      using assms sub unfolding registered_def run_timers_frame by blast
  next
    fix i j h
    assume "Mapping.lookup (persistTimeouts (run_timers p b w)) i = Some h"
      and "Mapping.lookup (persistTimeouts (run_timers p b w)) j = Some h"
    then show "i = j"
      using assms sub unfolding registered_def by blast
  qed
qed

lemma registered_step: "registered w \<Longrightarrow> registered (step p b w e)"
  by (cases e)
    (simp_all add: registered_upsert registered_run_timers,
     simp_all add: registered_def remove_begin_frame sweep_frame settle_frame)

lemma registered_exec: "registered w \<Longrightarrow> registered (exec p b es w)"
  unfolding exec_def by (induction es arbitrary: w) (simp_all add: registered_step)

lemma keyed_step: "keyed w \<Longrightarrow> keyed (step p b w e)"
  by (cases e)
    (auto simp: keyed_def upsert_frame remove_begin_frame sweep_frame run_timers_frame
       settle_frame lookup_update' lookup_filter lookup_delete_if
       split: if_splits option.splits)

lemma keyed_exec: "keyed w \<Longrightarrow> keyed (exec p b es w)"
  unfolding exec_def by (induction es arbitrary: w) (simp_all add: keyed_step)

lemma exec_append: "exec p b (es @ es') w = exec p b es' (exec p b es w)"
  by (simp add: exec_def)

lemma exec_Cons: "exec p b (e # es) w = exec p b es (step p b w e)"
  by (simp add: exec_def)

lemma registered_initial: "registered initial"
  by (simp add: registered_def initial_def)

lemma keyed_initial: "keyed initial"
  by (simp add: keyed_def initial_def)

text \<open>
  The parts of \<open>persist\<close> and of \<open>remove\<close>, run one after the other with nothing
  in between, give the whole call.
\<close>

lemma settle_none: "length (waiting w) \<le> k \<Longrightarrow> settle p b k w = w"
  by (simp add: settle_def)

lemma settle_last:
  assumes "waiting w = ws @ [t]"
  shows "settle p b (length ws) w = resume p b t (w\<lparr>waiting := ws\<rparr>)"
  using assms by (simp add: settle_def nth_append)

lemma persist_in_parts:
  "settle p b (length (waiting w)) (settle p b (length (waiting w)) (persist_begin p b i w)) =
     snd (persist p b i w)"
proof (cases "enabled p")
  case False
  then show ?thesis
    by (simp add: persist_def persist_begin_def enabled_def settle_none)
next
  case True
  let ?w1 = "w\<lparr>persistTimeouts := Mapping.delete i (persistTimeouts w)\<rparr>"
  show ?thesis
  proof (cases "Mapping.lookup (sessions w) i")
    case None
    with True show ?thesis
      by (auto simp: persist_def persist_begin_def enabled_def settle_none)
  next
    case (Some s)
    show ?thesis
    proof (cases "expiresAt s - clock w \<le> 0")
      case expired: True
      with True Some show ?thesis
        by (auto simp: persist_def persist_begin_def enabled_def settle_none)
    next
      case live: False
      show ?thesis
      proof (cases "truthy (USE_SESSION_DB p)")
        case db: True
        let ?t = "PersistDb s (expiresAt s - clock w) (outcome b (length (calls w)))"
        let ?w2 = "?w1\<lparr>calls := calls w @ [DbInsert i (JSON_stringify p s)]\<rparr>"
        have b: "persist_begin p b i w = ?w2\<lparr>waiting := waiting w @ [?t]\<rparr>"
          using Some live db by (simp add: persist_begin_def issue_def Let_def)
        have 1: "settle p b (length (waiting w)) (persist_begin p b i w) = resume p b ?t ?w2"
          unfolding b by (subst settle_last [where ws = "waiting w" and t = ?t]) simp_all
        show ?thesis
        proof (cases "truthy (USE_REDIS p)")
          case redis: True
          obtain w3 t3 where r: "resume p b ?t ?w2 = w3" "waiting w3 = waiting w @ [t3]"
            "t3 = PersistRedis s (expiresAt s - clock w) (outcome b (Suc (length (calls w))))"
            using redis by (simp add: issue_def Let_def split: option.splits)
          have 2: "settle p b (length (waiting w)) w3 = resume p b t3 (w3\<lparr>waiting := waiting w\<rparr>)"
            by (rule settle_last [OF r(2)])
          show ?thesis
            unfolding 1 r(1) 2 using r Some live db redis
            by (auto simp: persist_def persist_db_def persist_redis_def issue_def Let_def
                split: option.splits)
        next
          case no_redis: False
          have "waiting (resume p b ?t ?w2) = waiting w"
            using no_redis by (simp add: Let_def split: option.splits)
          then have "settle p b (length (waiting w)) (resume p b ?t ?w2) = resume p b ?t ?w2"
            by (simp add: settle_none)
          then show ?thesis
            unfolding 1 using Some live db no_redis
            by (simp add: persist_def persist_db_def issue_def Let_def split: option.splits)
        qed
      next
        case no_db: False
        with True have redis: "truthy (USE_REDIS p)" by (simp add: enabled_def)
        let ?t = "PersistRedis s (expiresAt s - clock w) (outcome b (length (calls w)))"
        let ?w2 = "?w1\<lparr>calls := calls w @
          [RedisSet (buildRedisKey p (session_id s)) (JSON_stringify p s) (expiresAt s - clock w)]\<rparr>"
        have b: "persist_begin p b i w = ?w2\<lparr>waiting := waiting w @ [?t]\<rparr>"
          using Some live no_db redis by (simp add: persist_begin_def issue_def Let_def)
        have 1: "settle p b (length (waiting w)) (persist_begin p b i w) = resume p b ?t ?w2"
          unfolding b by (subst settle_last [where ws = "waiting w" and t = ?t]) simp_all
        have "waiting (resume p b ?t ?w2) = waiting w"
          by (simp split: option.splits)
        then have "settle p b (length (waiting w)) (resume p b ?t ?w2) = resume p b ?t ?w2"
          by (simp add: settle_none)
        then show ?thesis
          unfolding 1 using Some live no_db redis
          by (simp add: persist_def persist_redis_def issue_def Let_def split: option.splits)
      qed
    qed
  qed
qed

lemma remove_in_parts:
  "settle p b (length (waiting w)) (settle p b (length (waiting w)) (remove_begin p b i w)) =
     snd (remove p b i w)"
proof (cases "truthy (USE_SESSION_DB p)")
  case db: True
  let ?w1 = "w\<lparr>sessions := Mapping.delete i (sessions w)\<rparr>"
  let ?t = "RemoveDb i (outcome b (length (calls w)))"
  let ?w2 = "?w1\<lparr>calls := calls w @ [DbDelete i]\<rparr>"
  have b: "remove_begin p b i w = ?w2\<lparr>waiting := waiting w @ [?t]\<rparr>"
    using db by (simp add: remove_begin_def issue_def Let_def)
  have 1: "settle p b (length (waiting w)) (remove_begin p b i w) = resume p b ?t ?w2"
    unfolding b by (subst settle_last [where ws = "waiting w" and t = ?t]) simp_all
  show ?thesis
  proof (cases "truthy (USE_REDIS p) \<and> outcome b (length (calls w)) = None")
    case True
    let ?t3 = "RemoveRedis i (outcome b (Suc (length (calls w))))"
    let ?w3 = "?w2\<lparr>calls := calls ?w2 @ [RedisDel (buildRedisKey p i)]\<rparr>"
    have r: "resume p b ?t ?w2 = ?w3\<lparr>waiting := waiting w @ [?t3]\<rparr>"
      using True by (simp add: issue_def)
    have "settle p b (length (waiting w)) (resume p b ?t ?w2) = resume p b ?t3 ?w3"
      unfolding r by (subst settle_last [where ws = "waiting w" and t = ?t3]) simp_all
    then show ?thesis
      unfolding 1 using db True
      by (simp add: remove_def issue_def Let_def split: option.splits)
  next
    case False
    then have "waiting (resume p b ?t ?w2) = waiting w"
      by (auto split: option.splits)
    then have "settle p b (length (waiting w)) (resume p b ?t ?w2) = resume p b ?t ?w2"
      by (simp add: settle_none)
    then show ?thesis
      unfolding 1 using db False
      by (auto simp: remove_def issue_def Let_def split: option.splits)
  qed
next
  case no_db: False
  show ?thesis
  proof (cases "truthy (USE_REDIS p)")
    case True
    let ?w1 = "w\<lparr>sessions := Mapping.delete i (sessions w)\<rparr>"
    let ?t = "RemoveRedis i (outcome b (length (calls w)))"
    let ?w2 = "?w1\<lparr>calls := calls w @ [RedisDel (buildRedisKey p i)]\<rparr>"
    have b: "remove_begin p b i w = ?w2\<lparr>waiting := waiting w @ [?t]\<rparr>"
      using no_db True by (simp add: remove_begin_def issue_def Let_def)
    have 1: "settle p b (length (waiting w)) (remove_begin p b i w) = resume p b ?t ?w2"
      unfolding b by (subst settle_last [where ws = "waiting w" and t = ?t]) simp_all
    show ?thesis
      unfolding 1 using no_db True
      by (simp add: remove_def issue_def Let_def settle_none split: option.splits)
  next
    case False
    with no_db show ?thesis
      by (simp add: remove_def remove_begin_def Let_def settle_none)
  qed
qed

text \<open>
  The state of a session id within its quiet period: one timeout is pending for it,
  not yet due, and the store holds the record of the last \<open>upsert\<close> or nothing.
\<close>

lemma quiet_step:
  assumes "registered w" "keyed w" "enabled p"
    and "map due (pending i w) = [clock w + 1000 - int t]"
    and "\<forall>s. Mapping.lookup (sessions w) i = Some s \<longrightarrow> s = r"
    and "quiet i t (e # es)" and "t < 1000"
  shows "map due (pending i (step p b w e)) =
           [clock (step p b w e) + 1000 - int (since i t [e])]"
    and "\<forall>s. Mapping.lookup (sessions (step p b w e)) i = Some s \<longrightarrow> s = last_value i r [e]"
    and "committed p i (step p b w e) = committed p i w"
    and "quiet i (since i t [e]) es" and "since i t [e] < 1000"
proof -
  show "map due (pending i (step p b w e)) =
      [clock (step p b w e) + 1000 - int (since i t [e])]"
  proof (cases e)
    case (Upsert r')
    show ?thesis
    proof (cases "session_id r' = i")
      case True
      with Upsert upsert_pending(1) [OF assms(1,3), of r'] show ?thesis
        by (simp add: upsert_frame)
    next
      case False
      with Upsert upsert_pending(2) [OF assms(1,3), of i r'] assms(4) show ?thesis
        by (simp add: upsert_frame)
    qed
  next
    case (Advance d)
    with assms(4) show ?thesis by (simp add: pending_def)
  next
    case TimersPhase
    from assms(4) obtain x where x: "pending i w = [x]" "due x = clock w + 1000 - int t"
      by (auto simp: map_eq_Cons_conv)
    moreover from assms(7) have "\<not> due x \<le> clock w"
      using x(2) by simp
    ultimately show ?thesis
      using TimersPhase by (simp add: run_timers_pending run_timers_frame)
  qed (use assms(4) in \<open>simp_all add: pending_def remove_begin_frame sweep_frame settle_frame\<close>)
  show "\<forall>s. Mapping.lookup (sessions (step p b w e)) i = Some s \<longrightarrow> s = last_value i r [e]"
    using assms(5)
    by (cases e)
      (auto simp: upsert_frame remove_begin_frame sweep_frame run_timers_frame settle_frame
        lookup_update' lookup_filter lookup_delete_if split: if_splits option.splits)
  show "committed p i (step p b w e) = committed p i w"
  proof (cases e)
    case TimersPhase
    from assms(4) obtain x where x: "pending i w = [x]" "due x = clock w + 1000 - int t"
      by (auto simp: map_eq_Cons_conv)
    with assms(7) have "filter (\<lambda>t. due t \<le> clock w) (pending i w) = []"
      by simp
    with TimersPhase show ?thesis
      by (simp add: run_timers_committed [OF assms(2)])
  qed (use committed_step [OF assms(2), of p i b e] in simp_all)
  show "quiet i (since i t [e]) es"
    using assms(6) by (cases e) simp_all
  show "since i t [e] < 1000"
    using assms(6,7) by (cases e) simp_all
qed

lemma since_Cons: "since i t (e # es) = since i (since i t [e]) es"
  by (cases e) simp_all

lemma last_value_Cons: "last_value i r (e # es) = last_value i (last_value i r [e]) es"
  by (cases e) simp_all

lemma quiet_exec:
  assumes "registered w" "keyed w" "enabled p"
    and "map due (pending i w) = [clock w + 1000 - int t]"
    and "\<forall>s. Mapping.lookup (sessions w) i = Some s \<longrightarrow> s = r"
    and "quiet i t es" and "t < 1000"
  shows "registered (exec p b es w) \<and> keyed (exec p b es w) \<and>
         map due (pending i (exec p b es w)) = [clock (exec p b es w) + 1000 - int (since i t es)] \<and>
         (\<forall>s. Mapping.lookup (sessions (exec p b es w)) i = Some s \<longrightarrow> s = last_value i r es) \<and>
         committed p i (exec p b es w) = committed p i w \<and>
         since i t es < 1000"
  using assms
proof (induction es arbitrary: w t r)
  case Nil
  then show ?case by (simp add: exec_def)
next
  case (Cons e es)
  note q = quiet_step [OF Cons.prems(1-7)]
  have "registered (step p b w e)" "keyed (step p b w e)"
    using Cons.prems(1,2) by (simp_all add: registered_step keyed_step)
  from Cons.IH [OF this Cons.prems(3) q(1,2,4,5)] q(3)
  show ?case
    by (simp add: exec_Cons since_Cons [of i t e es] last_value_Cons [of i r e es])
qed

lemma idle_step:
  assumes "registered w" "keyed w" "pending i w = []" "\<not> upserts_id i e"
  shows "pending i (step p b w e) = []"
    and "committed p i (step p b w e) = committed p i w"
proof -
  show "pending i (step p b w e) = []"
  proof (cases e)
    case (Upsert r)
    with assms(4) have "i \<noteq> session_id r" by auto
    then have "pending i (upsert p r w) = pending i w"
      using upsert_pending(2) [OF assms(1), of p i r]
      by (cases "enabled p") (simp_all add: upsert_disabled pending_def)
    with Upsert assms(3) show ?thesis by simp
  qed (use assms(3) in \<open>simp_all add: run_timers_pending\<close>,
      simp_all add: pending_def remove_begin_frame sweep_frame settle_frame)
  show "committed p i (step p b w e) = committed p i w"
    using committed_step [OF assms(2), of p i b e] assms(3) by simp
qed

lemma idle_exec:
  assumes "registered w" "keyed w" "pending i w = []" "\<forall>e \<in> set es. \<not> upserts_id i e"
  shows "pending i (exec p b es w) = [] \<and> committed p i (exec p b es w) = committed p i w"
  using assms
proof (induction es arbitrary: w)
  case Nil
  then show ?case by (simp add: exec_def)
next
  case (Cons e es)
  have "pending i (exec p b es (step p b w e)) = [] \<and>
      committed p i (exec p b es (step p b w e)) = committed p i (step p b w e)"
    using Cons.prems by (intro Cons.IH registered_step keyed_step idle_step) simp_all
  then show ?case
    using Cons.prems by (simp add: exec_Cons idle_step)
qed

lemma absent_step:
  assumes "keyed w" "Mapping.lookup (sessions w) i = None" "\<not> upserts_id i e"
  shows "Mapping.lookup (sessions (step p b w e)) i = None"
    and "committed p i (step p b w e) = committed p i w"
proof -
  show "Mapping.lookup (sessions (step p b w e)) i = None"
    using assms(2,3)
    by (cases e) (simp_all add: upsert_frame remove_begin_frame sweep_frame run_timers_frame
        settle_frame lookup_update' lookup_filter lookup_delete_if)
  have "persist_calls p i w = []"
    using assms(2) by (simp add: persist_calls_def)
  then show "committed p i (step p b w e) = committed p i w"
    using committed_step [OF assms(1), of p i b e] by simp
qed

lemma absent_exec:
  assumes "keyed w" "Mapping.lookup (sessions w) i = None" "\<forall>e \<in> set es. \<not> upserts_id i e"
  shows "committed p i (exec p b es w) = committed p i w"
  using assms
proof (induction es arbitrary: w)
  case Nil
  show ?case by (simp add: exec_def)
next
  case (Cons e es)
  have "committed p i (exec p b es (step p b w e)) = committed p i (step p b w e)"
    using Cons.prems by (intro Cons.IH keyed_step absent_step) simp_all
  then show ?case
    using Cons.prems by (simp add: exec_Cons absent_step)
qed

lemma flush_step:
  assumes "keyed w" "enabled p" and "map due (pending i w) = [c]" and "c \<le> clock w + int d"
  shows "committed p i (exec p b [Advance d, TimersPhase] w) =
           committed p i w + mset (persist_calls p i (w\<lparr>clock := clock w + int d\<rparr>))"
    and "pending i (exec p b [Advance d, TimersPhase] w) = []"
proof -
  let ?w2 = "w\<lparr>clock := clock w + int d\<rparr>"
  from assms(3) obtain x where x: "pending i w = [x]" "due x = c"
    by (auto simp: map_eq_Cons_conv)
  have k2: "keyed ?w2"
    using assms(1) by (simp add: keyed_def)
  have p2: "pending i ?w2 = [x]"
    using x by (simp add: pending_def)
  have c2: "committed p i ?w2 = committed p i w"
    by (simp add: committed_def writes_of_def inflight_def)
  show "committed p i (exec p b [Advance d, TimersPhase] w) =
      committed p i w + mset (persist_calls p i ?w2)"
    using assms(2,4) x by (simp add: exec_def run_timers_committed [OF k2] p2 c2)
  show "pending i (exec p b [Advance d, TimersPhase] w) = []"
    using assms(4) x by (simp add: exec_def run_timers_pending p2)
qed

lemma since_append: "since i t (es @ em) = since i (since i t es) em"
  by (induction i t es rule: since.induct) simp_all

lemma late_step:
  assumes "registered w" "keyed w" and "map due (pending i w) = [c]"
    and "\<forall>s. Mapping.lookup (sessions w) i = Some s \<longrightarrow> s = r"
    and "\<not> upserts_id i e" and "e \<noteq> TimersPhase"
  shows "map due (pending i (step p b w e)) = [c]"
    and "\<forall>s. Mapping.lookup (sessions (step p b w e)) i = Some s \<longrightarrow> s = r"
    and "committed p i (step p b w e) = committed p i w"
    and "clock (step p b w e) - int (since i t [e]) = clock w - int t"
proof -
  show "map due (pending i (step p b w e)) = [c]"
  proof (cases e)
    case (Upsert r')
    with assms(5) have "i \<noteq> session_id r'" by auto
    then have "pending i (upsert p r' w) = pending i w"
      using upsert_pending(2) [OF assms(1), of p i r']
      by (cases "enabled p") (simp_all add: upsert_disabled pending_def)
    with Upsert assms(3) show ?thesis by simp
  qed (use assms(3,6) in \<open>simp_all add: pending_def remove_begin_frame sweep_frame settle_frame\<close>)
  show "\<forall>s. Mapping.lookup (sessions (step p b w e)) i = Some s \<longrightarrow> s = r"
    using assms(4,5)
    by (cases e)
      (auto simp: upsert_frame remove_begin_frame sweep_frame run_timers_frame settle_frame
        lookup_update' lookup_filter lookup_delete_if split: if_splits option.splits)
  show "committed p i (step p b w e) = committed p i w"
    using committed_step [OF assms(2), of p i b e] assms(6) by simp
  show "clock (step p b w e) - int (since i t [e]) = clock w - int t"
    using assms(5,6)
    by (cases e) (simp_all add: upsert_frame remove_begin_frame sweep_frame settle_frame)
qed

lemma late_exec:
  assumes "registered w" "keyed w" and "map due (pending i w) = [c]"
    and "\<forall>s. Mapping.lookup (sessions w) i = Some s \<longrightarrow> s = r"
    and "\<forall>e \<in> set em. e \<noteq> TimersPhase \<and> \<not> upserts_id i e"
  shows "registered (exec p b em w) \<and> keyed (exec p b em w) \<and>
         map due (pending i (exec p b em w)) = [c] \<and>
         (\<forall>s. Mapping.lookup (sessions (exec p b em w)) i = Some s \<longrightarrow> s = r) \<and>
         committed p i (exec p b em w) = committed p i w \<and>
         clock (exec p b em w) - int (since i t em) = clock w - int t"
  using assms
proof (induction em arbitrary: w t)
  case Nil
  then show ?case by (simp add: exec_def)
next
  case (Cons e em)
  from Cons.prems(5) have e: "\<not> upserts_id i e" "e \<noteq> TimersPhase"
    and em: "\<forall>e \<in> set em. e \<noteq> TimersPhase \<and> \<not> upserts_id i e"
    by simp_all
  note l = late_step [OF Cons.prems(1-4) e]
  have "registered (step p b w e)" "keyed (step p b w e)"
    using Cons.prems(1,2) by (simp_all add: registered_step keyed_step)
  from Cons.IH [OF this l(1,2) em, of "since i t [e]"] l(3) l(4) [where t = t]
  show ?case
    by (simp add: exec_Cons since_Cons [of i t e em])
qed

lemma flush_now:
  assumes "keyed w" "enabled p" and "map due (pending i w) = [c]" and "c \<le> clock w"
  shows "committed p i (run_timers p b w) = committed p i w + mset (persist_calls p i w)"
    and "pending i (run_timers p b w) = []"
proof -
  from assms(3) obtain x where x: "pending i w = [x]" "due x = c"
    by (auto simp: map_eq_Cons_conv)
  show "committed p i (run_timers p b w) = committed p i w + mset (persist_calls p i w)"
    using assms(2,4) x by (simp add: run_timers_committed [OF assms(1)])
  show "pending i (run_timers p b w) = []"
    using assms(4) x by (simp add: run_timers_pending)
qed

lemma issued_writes:
  assumes "committed p i w' = committed p i w + M" and "calls w' = calls w @ cs"
  shows "\<exists>ws. writes_of p i w' = writes_of p i w @ ws \<and>
           mset ws + mset (inflight p i w') = mset (inflight p i w) + M"
  using assms by (simp add: committed_def writes_of_def)

subsection \<open>What \<open>restore\<close> loads\<close>

lemma restore_row_parse:
  "restore_row p m row = (case parse_row p row of None \<Rightarrow> m | Some s \<Rightarrow> Mapping.update (session_id s) s m)"
  by (simp add: restore_row_def parse_row_def split: option.splits)

lemma restore_raw_parse:
  "restore_raw p m raw = (case parse_raw p raw of None \<Rightarrow> m | Some s \<Rightarrow> Mapping.update (session_id s) s m)"
  by (simp add: restore_raw_def parse_raw_def split: option.splits)

lemma fold_restore_row:
  "foldl (restore_row p) m rows = insert_all (List.map_filter (parse_row p) rows) m"
  by (induction rows arbitrary: m)
    (simp_all add: insert_all_def List.map_filter_simps restore_row_parse split: option.splits)

lemma fold_restore_raw:
  "foldl (restore_raw p) m raws = insert_all (List.map_filter (parse_raw p) raws) m"
  by (induction raws arbitrary: m)
    (simp_all add: insert_all_def List.map_filter_simps restore_raw_parse split: option.splits)

lemma insert_all_append: "insert_all (xs @ ys) m = insert_all ys (insert_all xs m)"
  by (simp add: insert_all_def)

lemma lookup_insert_all:
  "Mapping.lookup (insert_all ss m) k =
     (case List.find (\<lambda>s. session_id s = k) (rev ss) of
        Some s \<Rightarrow> Some s
      | None \<Rightarrow> Mapping.lookup m k)"
proof (induction ss rule: rev_induct)
  case Nil
  show ?case by (simp add: insert_all_def)
next
  case (snoc s ss)
  have "insert_all (ss @ [s]) m = Mapping.update (session_id s) s (insert_all ss m)"
    by (simp add: insert_all_def)
  with snoc show ?case
    by (simp add: lookup_update')
qed

lemma find_Some_mem: "List.find P xs = Some x \<Longrightarrow> x \<in> set xs"
  by (induction xs) (auto split: if_splits)

lemma find_last_unique:
  assumes "\<forall>s' \<in> set ys. session_id s' \<noteq> session_id s"
  shows "List.find (\<lambda>s'. session_id s' = session_id s) (rev (xs @ s # ys)) = Some s"
proof -
  have "List.find (\<lambda>s'. session_id s' = session_id s) (rev ys @ zs) =
      List.find (\<lambda>s'. session_id s' = session_id s) zs" for zs
    using assms by (induction ys arbitrary: zs) simp_all
  from this [of "s # rev xs"] show ?thesis by simp
qed

lemma find_distinct_ids:
  assumes "distinct (map session_id ss)" "s \<in> set ss"
  shows "List.find (\<lambda>s'. session_id s' = session_id s) (rev ss) = Some s"
proof -
  from assms(2) obtain xs ys where ss: "ss = xs @ s # ys"
    by (auto simp: in_set_conv_decomp)
  with assms(1) have "session_id s \<notin> session_id ` set ys"
    by simp
  then have "\<forall>s' \<in> set ys. session_id s' \<noteq> session_id s"
    by (metis imageI)
  then show ?thesis
    unfolding ss by (rule find_last_unique)
qed

lemma paged_scan_loop:
  "paged scan cursor pages \<Longrightarrow>
   scan_loop scan cursor keys = Some (Inr (keys @ concat (map snd pages)))"
proof (induction scan cursor pages arbitrary: keys rule: paged.induct)
  case (1 scan cursor)
  then show ?case by simp
next
  case (2 scan cursor "next" page)
  then show ?case
    by (subst scan_loop.simps) simp
next
  case (3 scan cursor "next" page v va)
  then show ?case
    by (subst scan_loop.simps) simp
qed

lemma restore_db_stored:
  assumes "if truthy (USE_SESSION_DB p) then db_all b = Inr rows else rows = []"
  shows "\<exists>w1. (if truthy (USE_SESSION_DB p) then restore_db p b w else (Fulfilled, w)) = (Fulfilled, w1) \<and>
           sessions w1 = insert_all (List.map_filter (parse_row p) rows) (sessions w) \<and>
           clock w1 = clock w \<and> calls w1 = calls w \<and> timers w1 = timers w \<and>
           persistTimeouts w1 = persistTimeouts w \<and> waiting w1 = waiting w"
  using assms
  by (cases "truthy (USE_SESSION_DB p)")
    (simp_all add: restore_db_def Let_def fold_restore_row insert_all_def List.map_filter_simps)

lemma restore_redis_stored:
  assumes "paged (\<lambda>cursor. redis_scan b cursor (getRedisKeyMatcher p)) ''0'' pages"
    and "if concat (map snd pages) = [] then raws = []
         else redis_mget b (concat (map snd pages)) = Inr raws"
  shows "\<exists>w2. restore_redis p b w = Some (Fulfilled, w2) \<and>
           sessions w2 = insert_all (List.map_filter (parse_raw p) raws) (sessions w) \<and>
           clock w2 = clock w \<and> calls w2 = calls w \<and> timers w2 = timers w \<and>
           persistTimeouts w2 = persistTimeouts w \<and> waiting w2 = waiting w"
proof -
  have s: "scan_loop (\<lambda>cursor. redis_scan b cursor (getRedisKeyMatcher p)) ''0'' [] =
      Some (Inr (concat (map snd pages)))"
    using paged_scan_loop [OF assms(1), of "[]"] by simp
  show ?thesis
  proof (cases "concat (map snd pages) = []")
    case True
    with assms(2) s show ?thesis
      by (simp add: restore_redis_def insert_all_def List.map_filter_simps)
  next
    case False
    with assms(2) s show ?thesis
      by (simp add: restore_redis_def fold_restore_raw)
  qed
qed

lemma restore_stored:
  assumes "stored p b rows pages raws"
  shows "\<exists>w'. restored p b w = Some w' \<and>
           sessions w' = insert_all (deserialized p rows raws) (sessions w) \<and>
           clock w' = clock w \<and> calls w' = calls w \<and> timers w' = timers w \<and>
           persistTimeouts w' = persistTimeouts w \<and> waiting w' = waiting w"
proof -
  from assms have db: "if truthy (USE_SESSION_DB p) then db_all b = Inr rows else rows = []"
    by (simp add: stored_def)
  from restore_db_stored [OF db, of w] obtain w1
    where w1: "(if truthy (USE_SESSION_DB p) then restore_db p b w else (Fulfilled, w)) = (Fulfilled, w1)"
      "sessions w1 = insert_all (List.map_filter (parse_row p) rows) (sessions w)"
      "clock w1 = clock w" "calls w1 = calls w" "timers w1 = timers w"
      "persistTimeouts w1 = persistTimeouts w" "waiting w1 = waiting w"
    by blast
  show ?thesis
  proof (cases "truthy (USE_REDIS p)")
    case True
    have m: "getRedisKeyMatcher p =
        (case REDIS_NAMESPACE p of None \<Rightarrow> ''undefined'' | Some ns \<Rightarrow> ns) @ '':session:*''"
      by (simp add: getRedisKeyMatcher_def template_def)
    from assms True
    have "paged (\<lambda>cursor. redis_scan b cursor (getRedisKeyMatcher p)) ''0'' pages"
      and "if concat (map snd pages) = [] then raws = []
           else redis_mget b (concat (map snd pages)) = Inr raws"
      by (simp_all add: stored_def m)
    from restore_redis_stored [OF this, of w1] obtain w2
      where w2: "restore_redis p b w1 = Some (Fulfilled, w2)"
        "sessions w2 = insert_all (List.map_filter (parse_raw p) raws) (sessions w1)"
        "clock w2 = clock w1" "calls w2 = calls w1" "timers w2 = timers w1"
        "persistTimeouts w2 = persistTimeouts w1" "waiting w2 = waiting w1"
      by blast
    have "restored p b w = Some w2"
      using w1(1) w2(1) True by (simp add: restored_def restore_def)
    then show ?thesis
      using w1 w2 by (simp add: deserialized_def insert_all_append)
  next
    case False
    with assms have "raws = []"
      by (simp add: stored_def)
    moreover have "restored p b w = Some w1"
      using w1(1) False by (simp add: restored_def restore_def)
    ultimately show ?thesis
      using w1 by (simp add: deserialized_def List.map_filter_simps)
  qed
qed

section \<open>Reading and writing the record store\<close>

text \<open>
  C2. For every record \<open>r\<close>, \<open>findById (id r)\<close> right after \<open>upsert r\<close> returns \<open>r\<close>
  itself, whatever the backends are and whatever the store held before.
\<close>

theorem upsert_then_findById:
  "findById (session_id r) (upsert p r w) = Some r"
  by (simp add: findById_def upsert_def Let_def setTimeout_def clearTimeout_def
      split: option.splits prod.splits)

section \<open>Debounced persistence\<close>

text \<open>
  C8. In every state reached from one where \<open>registered\<close> holds (the initial state is
  one), at most one timeout is pending for each session id, and each pending timeout is
  the one the registry \<open>persistTimeouts\<close> names for its session. With a backend switched
  on, an \<open>upsert\<close> leaves exactly one timeout pending for its id, the new one (a prior
  one is cancelled and its registry entry replaced), and \<open>persist\<close> leaves no
  registry entry for its id, whichever way it ends.
\<close>

theorem one_pending_write_per_id:
  assumes "registered start" and "w = exec p b es start"
  shows "length (pending i w) \<le> 1 \<and>
         (\<forall>t \<in> set (timers w). Mapping.lookup (persistTimeouts w) (target t) = Some (handle t)) \<and>
         (enabled p \<longrightarrow>
            pending (session_id r) (upsert p r w) =
              [\<lparr>handle = next_handle w, due = clock w + 1000, target = session_id r\<rparr>] \<and>
            Mapping.lookup (persistTimeouts (upsert p r w)) (session_id r) = Some (next_handle w)) \<and>
         (enabled p \<longrightarrow> Mapping.lookup (persistTimeouts (snd (persist p b i w))) i = None)"
proof -
  have reg: "registered w"
    using assms by (simp add: registered_exec)
  have "length (pending i w) \<le> 1"
    by (rule length_pending [OF reg])
  moreover have "\<forall>t \<in> set (timers w). Mapping.lookup (persistTimeouts w) (target t) = Some (handle t)"
    using reg by (simp add: registered_def)
  moreover have "pending (session_id r) (upsert p r w) =
      [\<lparr>handle = next_handle w, due = clock w + 1000, target = session_id r\<rparr>]" if "enabled p"
    by (rule upsert_pending(1) [OF reg that])
  moreover have "Mapping.lookup (persistTimeouts (upsert p r w)) (session_id r) = Some (next_handle w)"
    if "enabled p"
    using that by (simp add: upsert_timers)
  moreover have "Mapping.lookup (persistTimeouts (snd (persist p b i w))) i = None" if "enabled p"
    using that by (simp add: persist_registry)
  ultimately show ?thesis by blast
qed

theorem one_pending_write_per_id_witness:
  "registered initial \<and> enabled both \<and>
   length (pending ''a'' (exec both healthy [Upsert rec_a, Advance 300, Upsert rec_a2] initial)) = 1 \<and>
   pending ''a'' (exec both healthy [Upsert rec_a, Advance 300, Upsert rec_a2] initial) =
     [\<lparr>handle = 2, due = 1300, target = ''a''\<rparr>] \<and>
   Mapping.lookup (persistTimeouts
      (snd (persist both healthy ''a''
         (exec both healthy [Upsert rec_a, Advance 300, Upsert rec_a2] initial)))) ''a'' = None"
proof -
  have e: "enabled both"
    by (simp add: enabled_def both_def truthy_def)
  have w: "exec both healthy [Upsert rec_a, Advance 300, Upsert rec_a2] initial =
      upsert both rec_a2 (exec both healthy [Upsert rec_a, Advance 300] initial)"
    by (simp add: exec_def)
  have n: "next_handle (exec both healthy [Upsert rec_a, Advance 300] initial) = 2"
    "clock (exec both healthy [Upsert rec_a, Advance 300] initial) = 300"
    "session_id rec_a2 = ''a''"
    by code_simp+
  from one_pending_write_per_id [where start = initial and p = both and b = healthy
      and es = "[Upsert rec_a, Advance 300]" and i = "''a''" and r = rec_a2,
      OF registered_initial refl]
    one_pending_write_per_id [where start = initial and p = both and b = healthy
      and es = "[Upsert rec_a, Advance 300, Upsert rec_a2]" and i = "''a''" and r = rec_a2,
      OF registered_initial refl]
  show ?thesis
    using e by (simp add: w n registered_initial)
qed

text \<open>
  C1, as the code has it. Take an \<open>upsert\<close> of the id \<open>i\<close>, with a backend switched
  on, and any events \<open>es\<close> after it during which \<open>i\<close> stays within its quiet period:
  further \<open>upsert\<close>s of \<open>i\<close>, each less than 1000 ms after the one before, and
  whatever else happens meanwhile. This burst commits no write for \<open>i\<close>: the writes
  for \<open>i\<close> issued during it are redis writes of \<open>persist\<close> calls that were waiting
  for their SQLite write when it began. At its end one timeout is pending for \<open>i\<close>,
  due 1000 ms after the last \<open>upsert\<close>, and the store holds under \<open>i\<close> the record of
  the last \<open>upsert\<close>, or nothing after a \<open>remove\<close> or a sweep. The same holds
  after any further events \<open>em\<close> that neither store \<open>i\<close> again nor run the timeouts,
  however much time passes in them. Once the quiet period is over, the next run of the
  timeouts makes \<open>persist\<close> commit the writes \<open>flushed\<close>: none if the id is gone
  or the record has expired by then, and otherwise one write for each backend that is
  switched on, carrying the last record and, for redis, the TTL left at that time.
  Whatever events \<open>es'\<close> follow, nothing more is committed for \<open>i\<close> until an
  \<open>upsert\<close> stores it again, and the writes issued for \<open>i\<close> since the start are
  those committed before or by the flush, less the ones still waiting.
\<close>

theorem burst_writes_once:
  assumes "registered w" and "keyed w" and "enabled p"
    and "quiet (session_id r) 0 es"
    and "\<forall>e \<in> set em. e \<noteq> TimersPhase \<and> \<not> upserts_id (session_id r) e"
    and "1000 \<le> since (session_id r) 0 (es @ em)"
    and "\<forall>e \<in> set es'. \<not> upserts_id (session_id r) e"
    and "i = session_id r"
    and "w1 = exec p b (Upsert r # es) w"
    and "wm = exec p b (Upsert r # es @ em) w"
    and "w2 = exec p b (Upsert r # es @ em @ TimersPhase # es') w"
    and "flushed =
           (if Mapping.lookup (sessions wm) i = None \<or> expiresAt (last_value i r es) \<le> clock wm
            then []
            else record_writes p (last_value i r es) (clock wm))"
  shows "committed p i w1 = committed p i w \<and>
         (\<exists>ws. writes_of p i w1 = writes_of p i w @ ws \<and>
            mset ws + mset (inflight p i w1) = mset (inflight p i w)) \<and>
         map due (pending i w1) = [clock w1 + 1000 - int (since i 0 es)] \<and>
         (\<forall>s. Mapping.lookup (sessions w1) i = Some s \<longrightarrow> s = last_value i r es) \<and>
         committed p i wm = committed p i w \<and>
         map due (pending i wm) = map due (pending i w1) \<and>
         (\<forall>s. Mapping.lookup (sessions wm) i = Some s \<longrightarrow> s = last_value i r es) \<and>
         committed p i w2 = committed p i w + mset flushed \<and>
         (\<exists>ws. writes_of p i w2 = writes_of p i w @ ws \<and>
            mset ws + mset (inflight p i w2) = mset (inflight p i w) + mset flushed) \<and>
         pending i w2 = []"
proof -
  let ?w0 = "upsert p r w"
  let ?wa = "run_timers p b wm"
  have i: "session_id r = i"
    using assms(8) by simp
  have r0: "registered ?w0" and k0: "keyed ?w0"
    using assms(1,2) registered_step [of w p b "Upsert r"] keyed_step [of w p b "Upsert r"]
    by simp_all
  have p0: "map due (pending i ?w0) = [clock ?w0 + 1000 - int 0]"
    using upsert_pending(1) [OF assms(1,3), of r] by (simp add: i upsert_frame)
  have s0: "\<forall>s. Mapping.lookup (sessions ?w0) i = Some s \<longrightarrow> s = r"
    by (simp add: i [symmetric] upsert_frame)
  have w1: "w1 = exec p b es ?w0"
    by (simp add: assms(9) exec_def)
  from quiet_exec [OF r0 k0 assms(3) p0 s0, of es b] assms(4) [unfolded i]
  have r1: "registered w1" and k1: "keyed w1"
    and p1: "map due (pending i w1) = [clock w1 + 1000 - int (since i 0 es)]"
    and s1: "\<forall>s. Mapping.lookup (sessions w1) i = Some s \<longrightarrow> s = last_value i r es"
    and c1: "committed p i w1 = committed p i ?w0"
    by (simp_all add: w1)
  have c10: "committed p i w1 = committed p i w"
    by (simp add: c1 upsert_committed)
  obtain cs1 where cs1: "calls w1 = calls w @ cs1"
    unfolding assms(9) using exec_calls by blast
  have wm: "wm = exec p b em w1"
    by (simp add: assms(9,10) exec_def)
  from late_exec [OF r1 k1 p1 s1 assms(5) [unfolded i], of p b "since i 0 es"]
  have rm: "registered wm" and km: "keyed wm"
    and pm: "map due (pending i wm) = [clock w1 + 1000 - int (since i 0 es)]"
    and sm: "\<forall>s. Mapping.lookup (sessions wm) i = Some s \<longrightarrow> s = last_value i r es"
    and cm: "committed p i wm = committed p i w"
    and tm: "clock wm - int (since i (since i 0 es) em) = clock w1 - int (since i 0 es)"
    by (simp_all add: wm c10)
  have due: "clock w1 + 1000 - int (since i 0 es) \<le> clock wm"
    using assms(6) tm by (simp add: i since_append)
  have pc: "persist_calls p i wm = flushed"
  proof (cases "Mapping.lookup (sessions wm) i")
    case None
    then show ?thesis
      by (simp add: persist_calls_def assms(12))
  next
    case (Some s)
    with sm have s: "s = last_value i r es" by simp
    with Some km have "session_id (last_value i r es) = i"
      by (simp add: keyed_def)
    with Some s show ?thesis
      by (simp add: persist_calls_def assms(12) record_writes_def)
  qed
  have c2: "committed p i ?wa = committed p i w + mset flushed"
    and p2: "pending i ?wa = []"
    using flush_now [OF km assms(3) pm due, of b] by (simp_all add: pc cm)
  have r2: "registered ?wa" and k2: "keyed ?wa"
    using rm km registered_step [of wm p b TimersPhase] keyed_step [of wm p b TimersPhase]
    by simp_all
  have w2: "w2 = exec p b es' ?wa"
    by (simp add: assms(10,11) exec_def)
  from idle_exec [OF r2 k2 p2, of es' p b] assms(7) [unfolded i]
  have pf: "pending i w2 = []" and cf: "committed p i w2 = committed p i w + mset flushed"
    by (simp_all add: w2 c2)
  obtain csf where csf: "calls w2 = calls w @ csf"
    unfolding assms(11) using exec_calls by blast
  from c10 have c10': "committed p i w1 = committed p i w + {#}" by simp
  from issued_writes [OF c10' cs1] issued_writes [OF cf csf] c10 p1 s1 cm pm sm cf pf
  show ?thesis by simp
qed

theorem burst_writes_once_witness:
  "registered initial \<and> keyed initial \<and> enabled both \<and>
   quiet ''a'' 0 [Advance 300, TimersPhase, Upsert rec_a2, Advance 300] \<and>
   Advance 700 \<noteq> TimersPhase \<and> \<not> upserts_id ''a'' (Advance 700) \<and>
   1000 \<le> since ''a'' 0 ([Advance 300, TimersPhase, Upsert rec_a2, Advance 300] @ [Advance 700]) \<and>
   \<not> upserts_id ''a'' (Settle 0) \<and>
   writes_of both ''a''
     (exec both healthy [Upsert rec_a, Advance 300, TimersPhase, Upsert rec_a2, Advance 300] initial) = [] \<and>
   map due (pending ''a''
     (exec both healthy [Upsert rec_a, Advance 300, TimersPhase, Upsert rec_a2, Advance 300] initial)) =
     [1300] \<and>
   committed both ''a''
     (exec both healthy
        [Upsert rec_a, Advance 300, TimersPhase, Upsert rec_a2, Advance 300,
         Advance 700, TimersPhase, Settle 0, Settle 0] initial) =
     mset [DbInsert ''a'' ''a/second'', RedisSet ''pp:session:a'' ''a/second'' 4700] \<and>
   writes_of both ''a''
     (exec both healthy
        [Upsert rec_a, Advance 300, TimersPhase, Upsert rec_a2, Advance 300,
         Advance 700, TimersPhase, Settle 0, Settle 0] initial) =
     [DbInsert ''a'' ''a/second'', RedisSet ''pp:session:a'' ''a/second'' 4700] \<and>
   quiet ''a'' 0 [Advance 300] \<and>
   Remove ''a'' \<noteq> TimersPhase \<and> \<not> upserts_id ''a'' (Remove ''a'') \<and>
   1000 \<le> since ''a'' 0 ([Advance 300] @ [Advance 700, Remove ''a'']) \<and>
   findById ''a'' (exec both healthy [Upsert rec_a, Advance 300, Advance 700, Remove ''a''] initial) =
     None \<and>
   committed both ''a''
     (exec both healthy
        [Upsert rec_a, Advance 300, Advance 700, Remove ''a'', TimersPhase, Settle 0, Settle 0]
        initial) = {#} \<and>
   quiet ''b'' 0 [Advance 400] \<and>
   1000 \<le> since ''b'' 0 ([Advance 400] @ [Advance 700]) \<and>
   findById ''b'' (exec both healthy [Upsert rec_b, Advance 400, Advance 700] initial) = Some rec_b \<and>
   expiresAt rec_b \<le> clock (exec both healthy [Upsert rec_b, Advance 400, Advance 700] initial) \<and>
   committed both ''b''
     (exec both healthy [Upsert rec_b, Advance 400, Advance 700, TimersPhase, Settle 0, Settle 0]
        initial) = {#}"
proof -
  have e: "enabled both"
    by (simp add: enabled_def both_def truthy_def)
  have q: "quiet (session_id rec_a) 0 [Advance 300, TimersPhase, Upsert rec_a2, Advance 300]"
    "1000 \<le> since (session_id rec_a) 0
       ([Advance 300, TimersPhase, Upsert rec_a2, Advance 300] @ [Advance 700])"
    "quiet (session_id rec_a) 0 [Advance 300]"
    "1000 \<le> since (session_id rec_a) 0 ([Advance 300] @ [Advance 700, Remove ''a''])"
    "quiet (session_id rec_b) 0 [Advance 400]"
    "1000 \<le> since (session_id rec_b) 0 ([Advance 400] @ [Advance 700])"
    by (simp_all add: rec_a_def rec_a2_def rec_b_def)
  have m: "\<forall>e \<in> set [Advance 700]. e \<noteq> TimersPhase \<and> \<not> upserts_id (session_id rec_a) e"
    "\<forall>e \<in> set [Advance 700, Remove ''a'']. e \<noteq> TimersPhase \<and> \<not> upserts_id (session_id rec_a) e"
    "\<forall>e \<in> set [Advance 700]. e \<noteq> TimersPhase \<and> \<not> upserts_id (session_id rec_b) e"
    by simp_all
  have u: "\<forall>e \<in> set [Settle 0, Settle 0]. \<not> upserts_id (session_id rec_a) e"
    "\<forall>e \<in> set [Settle 0, Settle 0]. \<not> upserts_id (session_id rec_b) e"
    by simp_all
  have v: "session_id rec_a = ''a''" "session_id rec_b = ''b''"
    "writes_of both ''a'' initial = []" "inflight both ''a'' initial = []"
    "writes_of both ''b'' initial = []" "inflight both ''b'' initial = []"
    "writes_of both ''a''
       (exec both healthy [Upsert rec_a, Advance 300, TimersPhase, Upsert rec_a2, Advance 300] initial) = []"
    "writes_of both ''a''
       (exec both healthy
          [Upsert rec_a, Advance 300, TimersPhase, Upsert rec_a2, Advance 300,
           Advance 700, TimersPhase, Settle 0, Settle 0] initial) =
       [DbInsert ''a'' ''a/second'', RedisSet ''pp:session:a'' ''a/second'' 4700]"
    "clock (exec both healthy [Upsert rec_a, Advance 300, TimersPhase, Upsert rec_a2, Advance 300] initial)
       = 600"
    "clock (exec both healthy
       [Upsert rec_a, Advance 300, TimersPhase, Upsert rec_a2, Advance 300, Advance 700] initial) = 1300"
    "Mapping.lookup (sessions
       (exec both healthy
          [Upsert rec_a, Advance 300, TimersPhase, Upsert rec_a2, Advance 300, Advance 700] initial))
       ''a'' = Some rec_a2"
    "expiresAt rec_a2 = 6000" "session_id rec_a2 = ''a''"
    "inflight both ''a''
       (exec both healthy
          [Upsert rec_a, Advance 300, TimersPhase, Upsert rec_a2, Advance 300,
           Advance 700, TimersPhase, Settle 0, Settle 0] initial) = []"
    "inflight both ''a''
       (exec both healthy
          [Upsert rec_a, Advance 300, Advance 700, Remove ''a'', TimersPhase, Settle 0, Settle 0]
          initial) = []"
    "writes_of both ''a''
       (exec both healthy
          [Upsert rec_a, Advance 300, Advance 700, Remove ''a'', TimersPhase, Settle 0, Settle 0]
          initial) = []"
    "record_writes both rec_a2 1300 =
       [DbInsert ''a'' ''a/second'', RedisSet ''pp:session:a'' ''a/second'' 4700]"
    "Mapping.lookup (sessions
       (exec both healthy [Upsert rec_a, Advance 300, Advance 700, Remove ''a''] initial)) ''a'' = None"
    "Mapping.lookup (sessions
       (exec both healthy [Upsert rec_b, Advance 400, Advance 700] initial)) ''b'' = Some rec_b"
    "clock (exec both healthy [Upsert rec_b, Advance 400, Advance 700] initial) = 1100"
    "expiresAt rec_b = 500"
    "inflight both ''b''
       (exec both healthy [Upsert rec_b, Advance 400, Advance 700, TimersPhase, Settle 0, Settle 0]
          initial) = []"
    "writes_of both ''b''
       (exec both healthy [Upsert rec_b, Advance 400, Advance 700, TimersPhase, Settle 0, Settle 0]
          initial) = []"
    by code_simp+
  from burst_writes_once [where w = initial and p = both and b = healthy and r = rec_a
      and es = "[Advance 300, TimersPhase, Upsert rec_a2, Advance 300]" and em = "[Advance 700]"
      and es' = "[Settle 0, Settle 0]",
      OF registered_initial keyed_initial e q(1) m(1) q(2) u(1) refl refl refl refl refl]
    burst_writes_once [where w = initial and p = both and b = healthy and r = rec_a
      and es = "[Advance 300]" and em = "[Advance 700, Remove ''a'']" and es' = "[Settle 0, Settle 0]",
      OF registered_initial keyed_initial e q(3) m(2) q(4) u(1) refl refl refl refl refl]
    burst_writes_once [where w = initial and p = both and b = healthy and r = rec_b
      and es = "[Advance 400]" and em = "[Advance 700]" and es' = "[Settle 0, Settle 0]",
      OF registered_initial keyed_initial e q(5) m(3) q(6) u(2) refl refl refl refl refl]
  show ?thesis
    using q by (simp add: registered_initial keyed_initial e v committed_def findById_def)
qed

theorem burst_counterexample:
  "clock initial < expiresAt rec_b \<and>
   writes_of redis_only ''b''
     (exec redis_only healthy [Upsert rec_b, Advance 1000, TimersPhase, Settle 0] initial) = [] \<and>
   waiting (exec redis_only healthy [Upsert rec_b, Advance 1000, TimersPhase, Settle 0] initial) = [] \<and>
   writes_of both ''a''
     (exec both healthy [Upsert rec_a, Advance 1000, TimersPhase, Settle 0, Settle 0] initial) =
     [DbInsert ''a'' ''a/first'', RedisSet ''pp:session:a'' ''a/first'' 4000]"
  by code_simp

text \<open>
  C3, as the code has it. After \<open>remove\<close> of an id nothing is committed for it,
  whatever events follow, until an \<open>upsert\<close> stores the id again: the timeout that an
  earlier \<open>upsert\<close> scheduled stays pending, and when it runs \<open>persist\<close> finds the id
  absent, clears the registry entry and issues nothing. The writes for the id that are
  issued after the \<open>remove\<close> are redis writes of \<open>persist\<close> calls that were waiting
  for their SQLite write when \<open>remove\<close> was called; where no such call waits, no
  write for the id is issued.
\<close>

theorem remove_before_flush:
  assumes "keyed w" and "\<forall>e \<in> set es. \<not> upserts_id i e"
    and "w' = exec p b (Remove i # es) w"
  shows "committed p i w' = committed p i w \<and>
         (\<exists>ws. writes_of p i w' = writes_of p i w @ ws \<and>
            mset ws + mset (inflight p i w') = mset (inflight p i w)) \<and>
         (inflight p i w = [] \<longrightarrow> writes_of p i w' = writes_of p i w) \<and>
         (findById i v = None \<longrightarrow>
            persist_begin p b i v =
              (if enabled p then v\<lparr>persistTimeouts := Mapping.delete i (persistTimeouts v)\<rparr> else v) \<and>
            persist p b i v = (Fulfilled, persist_begin p b i v))"
proof -
  let ?w1 = "remove_begin p b i w"
  have k1: "keyed ?w1"
    using keyed_step [OF assms(1), of p b "Remove i"] by simp
  have a1: "Mapping.lookup (sessions ?w1) i = None"
    by (simp add: remove_begin_frame)
  have w': "w' = exec p b es ?w1"
    by (simp add: assms(3) exec_def)
  have c: "committed p i w' = committed p i w + {#}"
    using absent_exec [OF k1 a1 assms(2), of p b] by (simp add: w' remove_begin_committed)
  obtain cs where cs: "calls w' = calls w @ cs"
    unfolding assms(3) using exec_calls by blast
  from issued_writes [OF c cs]
  obtain ws where ws: "writes_of p i w' = writes_of p i w @ ws"
    "mset ws + mset (inflight p i w') = mset (inflight p i w)"
    by auto
  then have "writes_of p i w' = writes_of p i w" if "inflight p i w = []"
    using that by simp
  moreover have "persist_begin p b i v =
      (if enabled p then v\<lparr>persistTimeouts := Mapping.delete i (persistTimeouts v)\<rparr> else v) \<and>
      persist p b i v = (Fulfilled, persist_begin p b i v)" if "findById i v = None"
    using that by (auto simp: persist_def persist_begin_def findById_def enabled_def)
  ultimately show ?thesis
    using c ws by auto
qed

theorem remove_before_flush_witness:
  "keyed (exec both healthy [Upsert rec_a, Advance 500] initial) \<and>
   \<not> upserts_id ''a'' (Advance 600) \<and> \<not> upserts_id ''a'' TimersPhase \<and>
   \<not> upserts_id ''a'' (Settle 0) \<and>
   inflight both ''a'' (exec both healthy [Upsert rec_a, Advance 500] initial) = [] \<and>
   pending ''a'' (exec both healthy [Upsert rec_a, Advance 500, Remove ''a''] initial) =
     [\<lparr>handle = 1, due = 1000, target = ''a''\<rparr>] \<and>
   writes_of both ''a''
     (exec both healthy
        [Upsert rec_a, Advance 500, Remove ''a'', Advance 600, TimersPhase, Settle 0, Settle 0]
        initial) = [] \<and>
   calls
     (exec both healthy
        [Upsert rec_a, Advance 500, Remove ''a'', Advance 600, TimersPhase, Settle 0, Settle 0]
        initial) = [DbDelete ''a'', RedisDel ''pp:session:a''] \<and>
   findById ''a'' (exec both healthy [Upsert rec_a, Advance 500, Remove ''a''] initial) = None \<and>
   persist both healthy ''a'' (exec both healthy [Upsert rec_a, Advance 500, Remove ''a''] initial) =
     (Fulfilled,
      (exec both healthy [Upsert rec_a, Advance 500, Remove ''a''] initial)
        \<lparr>persistTimeouts := Mapping.delete ''a''
           (persistTimeouts (exec both healthy [Upsert rec_a, Advance 500, Remove ''a''] initial))\<rparr>)"
proof -
  have k: "keyed (exec both healthy [Upsert rec_a, Advance 500] initial)"
    by (rule keyed_exec [OF keyed_initial])
  have h: "\<forall>e \<in> set [Advance 600, TimersPhase, Settle 0, Settle 0]. \<not> upserts_id ''a'' e"
    by simp
  have x: "exec both healthy
        [Upsert rec_a, Advance 500, Remove ''a'', Advance 600, TimersPhase, Settle 0, Settle 0] initial =
      exec both healthy (Remove ''a'' # [Advance 600, TimersPhase, Settle 0, Settle 0])
        (exec both healthy [Upsert rec_a, Advance 500] initial)"
    by (simp add: exec_def)
  have v: "writes_of both ''a'' (exec both healthy [Upsert rec_a, Advance 500] initial) = []"
    "inflight both ''a'' (exec both healthy [Upsert rec_a, Advance 500] initial) = []"
    "findById ''a'' (exec both healthy [Upsert rec_a, Advance 500, Remove ''a''] initial) = None"
    "pending ''a'' (exec both healthy [Upsert rec_a, Advance 500, Remove ''a''] initial) =
       [\<lparr>handle = 1, due = 1000, target = ''a''\<rparr>]"
    "calls
       (exec both healthy
          [Upsert rec_a, Advance 500, Remove ''a'', Advance 600, TimersPhase, Settle 0, Settle 0]
          initial) = [DbDelete ''a'', RedisDel ''pp:session:a'']"
    by code_simp+
  have e: "enabled both"
    by (simp add: enabled_def both_def truthy_def)
  from remove_before_flush [where w = "exec both healthy [Upsert rec_a, Advance 500] initial"
      and i = "''a''" and es = "[Advance 600, TimersPhase, Settle 0, Settle 0]"
      and p = both and b = healthy
      and v = "exec both healthy [Upsert rec_a, Advance 500, Remove ''a''] initial",
      OF k h x]
  show ?thesis
    using k by (simp add: v e)
qed

theorem remove_in_flight_counterexample:
  "clock
     (exec both healthy [Upsert rec_a, Advance 1000, TimersPhase, Upsert rec_a2, Remove ''a''] initial) =
     1000 \<and>
   map due (pending ''a''
     (exec both healthy [Upsert rec_a, Advance 1000, TimersPhase, Upsert rec_a2, Remove ''a''] initial)) =
     [2000] \<and>
   findById ''a''
     (exec both healthy [Upsert rec_a, Advance 1000, TimersPhase, Upsert rec_a2, Remove ''a''] initial) =
     None \<and>
   writes_of both ''a''
     (exec both healthy [Upsert rec_a, Advance 1000, TimersPhase, Upsert rec_a2, Remove ''a''] initial) =
     [DbInsert ''a'' ''a/first''] \<and>
   writes_of both ''a''
     (exec both healthy
        [Upsert rec_a, Advance 1000, TimersPhase, Upsert rec_a2, Remove ''a'', Settle 0] initial) =
     [DbInsert ''a'' ''a/first'', RedisSet ''pp:session:a'' ''a/first'' 4000]"
  by code_simp

text \<open>
  C4. A record whose \<open>expiresAt\<close> is at or before the clock when \<open>persist\<close> runs
  is written to no backend; this holds for the timeout an \<open>upsert\<close> scheduled, also
  when the record was unexpired at the \<open>upsert\<close>. When \<open>persist\<close> does write to
  redis, the \<open>SET\<close> carries the TTL \<open>expiresAt - now\<close> read when it started.
\<close>

theorem expired_at_flush:
  "(Mapping.lookup (sessions w) i = Some s \<and> expiresAt s \<le> clock w \<longrightarrow>
      calls (snd (persist p b i w)) = calls w) \<and>
   (keyed w \<and> expiresAt r \<le> clock w + int d \<longrightarrow>
      writes_of p (session_id r) (exec p b [Upsert r, Advance d, TimersPhase] w) =
        writes_of p (session_id r) w) \<and>
   (Mapping.lookup (sessions w) i = Some s \<and> clock w < expiresAt s \<and> truthy (USE_REDIS p) \<longrightarrow>
      calls (snd (persist p b i w)) =
        calls w @
        (if truthy (USE_SESSION_DB p) then [DbInsert i (JSON_stringify p s)] else []) @
        [RedisSet (buildRedisKey p (session_id s)) (JSON_stringify p s) (expiresAt s - clock w)])"
proof (intro conjI impI)
  assume "Mapping.lookup (sessions w) i = Some s \<and> expiresAt s \<le> clock w"
  then show "calls (snd (persist p b i w)) = calls w"
    by (simp add: persist_calls_eq persist_calls_def)
next
  assume a: "keyed w \<and> expiresAt r \<le> clock w + int d"
  let ?w2 = "(upsert p r w)\<lparr>clock := clock w + int d\<rparr>"
  have k2: "keyed ?w2"
    using a keyed_step [of w p b "Upsert r"] by (simp add: keyed_def)
  have "persist_calls p (session_id r) ?w2 = []"
    using a by (simp add: persist_calls_def upsert_frame)
  then have "writes_of p (session_id r) (run_timers p b ?w2) = writes_of p (session_id r) ?w2"
    by (simp add: run_timers_writes [OF k2])
  then show "writes_of p (session_id r) (exec p b [Upsert r, Advance d, TimersPhase] w) =
      writes_of p (session_id r) w"
    by (simp add: exec_def upsert_frame writes_of_def)
next
  assume "Mapping.lookup (sessions w) i = Some s \<and> clock w < expiresAt s \<and> truthy (USE_REDIS p)"
  then show "calls (snd (persist p b i w)) =
      calls w @ (if truthy (USE_SESSION_DB p) then [DbInsert i (JSON_stringify p s)] else []) @
      [RedisSet (buildRedisKey p (session_id s)) (JSON_stringify p s) (expiresAt s - clock w)]"
    by (simp add: persist_calls_eq persist_calls_def enabled_def)
qed

theorem expired_at_flush_witness:
  "keyed initial \<and> clock initial < expiresAt rec_b \<and> expiresAt rec_b \<le> clock initial + int 1000 \<and>
   writes_of both ''b'' (exec both healthy [Upsert rec_b, Advance 1000, TimersPhase] initial) = [] \<and>
   Mapping.lookup (sessions (exec both healthy [Upsert rec_b, Advance 1000] initial)) ''b'' = Some rec_b \<and>
   calls (snd (persist both healthy ''b'' (exec both healthy [Upsert rec_b, Advance 1000] initial))) = [] \<and>
   Mapping.lookup (sessions (exec both healthy [Upsert rec_a, Advance 1000] initial)) ''a'' = Some rec_a \<and>
   truthy (USE_REDIS both) \<and>
   calls (snd (persist both healthy ''a'' (exec both healthy [Upsert rec_a, Advance 1000] initial))) =
     [DbInsert ''a'' ''a/first'', RedisSet ''pp:session:a'' ''a/first'' 4000]"
proof -
  have v: "session_id rec_b = ''b''" "expiresAt rec_b = 500" "clock initial = 0"
    "writes_of both ''b'' initial = []"
    "Mapping.lookup (sessions (exec both healthy [Upsert rec_b, Advance 1000] initial)) ''b'' = Some rec_b"
    "clock (exec both healthy [Upsert rec_b, Advance 1000] initial) = 1000"
    "calls (exec both healthy [Upsert rec_b, Advance 1000] initial) = []"
    "Mapping.lookup (sessions (exec both healthy [Upsert rec_a, Advance 1000] initial)) ''a'' = Some rec_a"
    "clock (exec both healthy [Upsert rec_a, Advance 1000] initial) = 1000"
    "calls (exec both healthy [Upsert rec_a, Advance 1000] initial) = []"
    "expiresAt rec_a = 5000" "session_id rec_a = ''a''"
    "truthy (USE_REDIS both)" "truthy (USE_SESSION_DB both)"
    "JSON_stringify both rec_a = ''a/first''" "buildRedisKey both ''a'' = ''pp:session:a''"
    by code_simp+
  from expired_at_flush [where w = "exec both healthy [Upsert rec_b, Advance 1000] initial"
      and i = "''b''" and s = rec_b and p = both and b = healthy and r = rec_b and d = 0]
    expired_at_flush [where w = initial and r = rec_b and d = 1000 and p = both and b = healthy
      and i = "''b''" and s = rec_b]
    expired_at_flush [where w = "exec both healthy [Upsert rec_a, Advance 1000] initial"
      and i = "''a''" and s = rec_a and p = both and b = healthy and r = rec_a and d = 0]
  show ?thesis
    by (simp add: keyed_initial v)
qed

text \<open>
  C10. \<open>remove\<close> changes neither the registry \<open>persistTimeouts\<close> nor the pending
  timeouts; it only takes the id out of the store. When \<open>persist\<close> then runs for the
  id, it clears the registry entry and issues no call.
\<close>

theorem remove_keeps_registry:
  "persistTimeouts (snd (remove p b i w)) = persistTimeouts w \<and>
   timers (snd (remove p b i w)) = timers w \<and>
   findById i (snd (remove p b i w)) = None \<and>
   (enabled p \<longrightarrow>
      Mapping.lookup (persistTimeouts (snd (persist p b i (snd (remove p b i w))))) i = None \<and>
      calls (snd (persist p b i (snd (remove p b i w)))) = calls (snd (remove p b i w)))"
  by (simp add: remove_frame findById_def persist_registry persist_calls_eq persist_calls_def)

theorem remove_keeps_registry_witness:
  "enabled both \<and>
   Mapping.lookup (persistTimeouts (exec both healthy [Upsert rec_a] initial)) ''a'' = Some 1 \<and>
   Mapping.lookup (persistTimeouts (snd (remove both healthy ''a'' (exec both healthy [Upsert rec_a] initial)))) ''a'' = Some 1 \<and>
   timers (snd (remove both healthy ''a'' (exec both healthy [Upsert rec_a] initial))) =
     [\<lparr>handle = 1, due = 1000, target = ''a''\<rparr>] \<and>
   Mapping.lookup (persistTimeouts (snd (persist both healthy ''a''
       (snd (remove both healthy ''a'' (exec both healthy [Upsert rec_a] initial)))))) ''a'' = None \<and>
   calls (snd (persist both healthy ''a''
       (snd (remove both healthy ''a'' (exec both healthy [Upsert rec_a] initial))))) =
     [DbDelete ''a'', RedisDel ''pp:session:a'']"
proof -
  have e: "enabled both"
    by (simp add: enabled_def both_def truthy_def)
  have v: "Mapping.lookup (persistTimeouts (exec both healthy [Upsert rec_a] initial)) ''a'' = Some 1"
    "timers (exec both healthy [Upsert rec_a] initial) = [\<lparr>handle = 1, due = 1000, target = ''a''\<rparr>]"
    "calls (snd (remove both healthy ''a'' (exec both healthy [Upsert rec_a] initial))) =
       [DbDelete ''a'', RedisDel ''pp:session:a'']"
    by code_simp+
  from remove_keeps_registry [of both healthy "''a''" "exec both healthy [Upsert rec_a] initial"]
  show ?thesis
    by (simp add: e v)
qed

section \<open>Failing backends\<close>

text \<open>
  C5, as the code has it. \<open>persist\<close> never rejects: each write that a backend
  rejects is caught and logged, and the redis write is issued whether or not the SQLite
  write failed; \<open>upsert\<close> itself issues no backend call. \<open>remove\<close> has no handler:
  it takes the id out of the store and issues the SQLite deletion first when that
  backend is on; a deletion that either backend rejects rejects the promise \<open>remove\<close>
  returned, with nothing logged, and otherwise the promise is fulfilled; when the SQLite
  deletion did not fail (or SQLite is off), the deletion is issued to every backend
  that is switched on.
\<close>

theorem persist_swallows_remove_rejects:
  "fst (persist p b i w) = Fulfilled \<and>
   calls (upsert p r w) = calls w \<and>
   (Mapping.lookup (sessions w) i = Some s \<and> clock w < expiresAt s \<longrightarrow>
      calls (snd (persist p b i w)) =
        calls w @
        (if truthy (USE_SESSION_DB p) then [DbInsert i (JSON_stringify p s)] else []) @
        (if truthy (USE_REDIS p)
         then [RedisSet (buildRedisKey p (session_id s)) (JSON_stringify p s) (expiresAt s - clock w)]
         else []) \<and>
      logs (snd (persist p b i w)) =
        logs w @
        (if truthy (USE_SESSION_DB p) then
           (case outcome b (length (calls w)) of
              None \<Rightarrow> []
            | Some err \<Rightarrow> [LogError ''Could not persist session to DB'' err s (expiresAt s - clock w)])
         else []) @
        (if truthy (USE_REDIS p) then
           (case outcome b (length (calls w) + (if truthy (USE_SESSION_DB p) then 1 else 0)) of
              None \<Rightarrow> []
            | Some err \<Rightarrow> [LogError ''Could not persist session'' err s (expiresAt s - clock w)])
         else [])) \<and>
   findById i (snd (remove p b i w)) = None \<and>
   logs (snd (remove p b i w)) = logs w \<and>
   fst (remove p b i w) =
     (case (if truthy (USE_SESSION_DB p) then outcome b (length (calls w)) else None) of
        Some err \<Rightarrow> Rejected err
      | None \<Rightarrow>
          (case (if truthy (USE_REDIS p)
                 then outcome b (length (calls w) + (if truthy (USE_SESSION_DB p) then 1 else 0))
                 else None) of
             Some err \<Rightarrow> Rejected err
           | None \<Rightarrow> Fulfilled)) \<and>
   (truthy (USE_SESSION_DB p) \<longrightarrow>
      take (Suc (length (calls w))) (calls (snd (remove p b i w))) = calls w @ [DbDelete i]) \<and>
   ((truthy (USE_SESSION_DB p) \<longrightarrow> outcome b (length (calls w)) = None) \<longrightarrow>
      calls (snd (remove p b i w)) =
        calls w @
        (if truthy (USE_SESSION_DB p) then [DbDelete i] else []) @
        (if truthy (USE_REDIS p) then [RedisDel (buildRedisKey p i)] else []))"
proof (intro conjI impI)
  show "fst (persist p b i w) = Fulfilled"
    by (rule persist_fulfilled)
  show "calls (upsert p r w) = calls w"
    by (rule upsert_frame)
  show "findById i (snd (remove p b i w)) = None"
    by (simp add: findById_def remove_frame)
  show "logs (snd (remove p b i w)) = logs w"
    by (rule remove_frame)
  show "fst (remove p b i w) =
     (case (if truthy (USE_SESSION_DB p) then outcome b (length (calls w)) else None) of
        Some err \<Rightarrow> Rejected err
      | None \<Rightarrow>
          (case (if truthy (USE_REDIS p)
                 then outcome b (length (calls w) + (if truthy (USE_SESSION_DB p) then 1 else 0))
                 else None) of
             Some err \<Rightarrow> Rejected err
           | None \<Rightarrow> Fulfilled))"
    by (simp add: remove_def issue_def Let_def split: option.splits)
next
  assume a: "Mapping.lookup (sessions w) i = Some s \<and> clock w < expiresAt s"
  then show "calls (snd (persist p b i w)) =
        calls w @
        (if truthy (USE_SESSION_DB p) then [DbInsert i (JSON_stringify p s)] else []) @
        (if truthy (USE_REDIS p)
         then [RedisSet (buildRedisKey p (session_id s)) (JSON_stringify p s) (expiresAt s - clock w)]
         else [])"
    by (simp add: persist_calls_eq persist_calls_def enabled_def)
  from a show "logs (snd (persist p b i w)) =
        logs w @
        (if truthy (USE_SESSION_DB p) then
           (case outcome b (length (calls w)) of
              None \<Rightarrow> []
            | Some err \<Rightarrow> [LogError ''Could not persist session to DB'' err s (expiresAt s - clock w)])
         else []) @
        (if truthy (USE_REDIS p) then
           (case outcome b (length (calls w) + (if truthy (USE_SESSION_DB p) then 1 else 0)) of
              None \<Rightarrow> []
            | Some err \<Rightarrow> [LogError ''Could not persist session'' err s (expiresAt s - clock w)])
         else [])"
    by (simp add: persist_def persist_db_def persist_redis_def issue_def Let_def
        split: option.splits)
next
  assume "truthy (USE_SESSION_DB p)"
  then show "take (Suc (length (calls w))) (calls (snd (remove p b i w))) = calls w @ [DbDelete i]"
    by (simp add: remove_calls)
next
  assume "truthy (USE_SESSION_DB p) \<longrightarrow> outcome b (length (calls w)) = None"
  then show "calls (snd (remove p b i w)) =
        calls w @
        (if truthy (USE_SESSION_DB p) then [DbDelete i] else []) @
        (if truthy (USE_REDIS p) then [RedisDel (buildRedisKey p i)] else [])"
    by (auto simp: remove_calls)
qed

theorem persist_swallows_remove_rejects_witness:
  "Mapping.lookup (sessions (exec both broken [Upsert rec_a] initial)) ''a'' = Some rec_a \<and>
   clock (exec both broken [Upsert rec_a] initial) < expiresAt rec_a \<and>
   truthy (USE_SESSION_DB both) \<and> truthy (USE_REDIS both) \<and>
   outcome broken 0 = Some ''down'' \<and> outcome broken 1 = Some ''down'' \<and>
   fst (persist both broken ''a'' (exec both broken [Upsert rec_a] initial)) = Fulfilled \<and>
   calls (snd (persist both broken ''a'' (exec both broken [Upsert rec_a] initial))) =
     [DbInsert ''a'' ''a/first'', RedisSet ''pp:session:a'' ''a/first'' 5000] \<and>
   logs (snd (persist both broken ''a'' (exec both broken [Upsert rec_a] initial))) =
     [LogError ''Could not persist session to DB'' ''down'' rec_a 5000,
      LogError ''Could not persist session'' ''down'' rec_a 5000] \<and>
   fst (remove both broken ''a'' (exec both broken [Upsert rec_a] initial)) = Rejected ''down'' \<and>
   outcome redis_down 0 = None \<and> outcome redis_down 1 = Some ''down'' \<and>
   fst (remove both redis_down ''a'' (exec both broken [Upsert rec_a] initial)) = Rejected ''down'' \<and>
   calls (snd (remove both redis_down ''a'' (exec both broken [Upsert rec_a] initial))) =
     [DbDelete ''a'', RedisDel ''pp:session:a''] \<and>
   logs (snd (remove both redis_down ''a'' (exec both broken [Upsert rec_a] initial))) = [] \<and>
   fst (remove both healthy ''a'' (exec both broken [Upsert rec_a] initial)) = Fulfilled \<and>
   calls (snd (remove both healthy ''a'' (exec both broken [Upsert rec_a] initial))) =
     [DbDelete ''a'', RedisDel ''pp:session:a'']"
proof -
  have v: "Mapping.lookup (sessions (exec both broken [Upsert rec_a] initial)) ''a'' = Some rec_a"
    "clock (exec both broken [Upsert rec_a] initial) = 0"
    "calls (exec both broken [Upsert rec_a] initial) = []"
    "logs (exec both broken [Upsert rec_a] initial) = []"
    "expiresAt rec_a = 5000" "session_id rec_a = ''a''"
    "truthy (USE_SESSION_DB both)" "truthy (USE_REDIS both)"
    "outcome broken 0 = Some ''down''" "outcome broken (Suc 0) = Some ''down''"
    "outcome healthy 0 = None" "outcome healthy (Suc 0) = None"
    "outcome redis_down 0 = None" "outcome redis_down (Suc 0) = Some ''down''"
    "JSON_stringify both rec_a = ''a/first''" "buildRedisKey both ''a'' = ''pp:session:a''"
    by code_simp+
  from persist_swallows_remove_rejects [where p = both and b = broken and i = "''a''"
      and w = "exec both broken [Upsert rec_a] initial" and s = rec_a and r = rec_a]
    persist_swallows_remove_rejects [where p = both and b = healthy and i = "''a''"
      and w = "exec both broken [Upsert rec_a] initial" and s = rec_a and r = rec_a]
    persist_swallows_remove_rejects [where p = both and b = redis_down and i = "''a''"
      and w = "exec both broken [Upsert rec_a] initial" and s = rec_a and r = rec_a]
  show ?thesis
    by (simp add: v)
qed

theorem remove_failure_counterexample:
  "truthy (USE_SESSION_DB both) \<and> truthy (USE_REDIS both) \<and>
   outcome broken 0 = Some ''down'' \<and>
   fst (remove both broken ''a'' initial) = Rejected ''down'' \<and>
   calls (snd (remove both broken ''a'' initial)) = [DbDelete ''a''] \<and>
   logs (snd (remove both broken ''a'' initial)) = []"
  by code_simp

section \<open>The sweeper\<close>

text \<open>
  C6. One tick of the sweeper removes exactly the records with \<open>expiresAt \<le> now\<close>:
  every other record is found under the same id with the same value, no backend call
  is issued, the registry and the pending timeouts stay as they were, and on an empty
  store the tick changes nothing at all.
\<close>

theorem sweep_exact:
  "Mapping.lookup (sessions (sweep w)) k =
     (case Mapping.lookup (sessions w) k of
        None \<Rightarrow> None
      | Some s \<Rightarrow> if expiresAt s \<le> clock w then None else Some s) \<and>
   calls (sweep w) = calls w \<and>
   persistTimeouts (sweep w) = persistTimeouts w \<and>
   timers (sweep w) = timers w \<and>
   (sessions w = Mapping.empty \<longrightarrow> sweep w = w)"
proof -
  have "sweep w = w" if "sessions w = Mapping.empty"
    using that by (simp add: sweep_def filter_empty_mapping)
  then show ?thesis
    by (simp add: sweep_frame lookup_filter split: option.splits)
qed

theorem sweep_exact_witness:
  "findById ''a'' (exec both healthy [Upsert rec_a, Upsert rec_b, Advance 500] initial) = Some rec_a \<and>
   findById ''b'' (exec both healthy [Upsert rec_a, Upsert rec_b, Advance 500] initial) = Some rec_b \<and>
   findById ''a'' (sweep (exec both healthy [Upsert rec_a, Upsert rec_b, Advance 500] initial)) = Some rec_a \<and>
   findById ''b'' (sweep (exec both healthy [Upsert rec_a, Upsert rec_b, Advance 500] initial)) = None \<and>
   sessions initial = Mapping.empty \<and> sweep initial = initial"
proof -
  have v: "findById ''a'' (exec both healthy [Upsert rec_a, Upsert rec_b, Advance 500] initial) = Some rec_a"
    "findById ''b'' (exec both healthy [Upsert rec_a, Upsert rec_b, Advance 500] initial) = Some rec_b"
    "clock (exec both healthy [Upsert rec_a, Upsert rec_b, Advance 500] initial) = 500"
    "expiresAt rec_a = 5000" "expiresAt rec_b = 500"
    by code_simp+
  have i: "sessions initial = Mapping.empty"
    by (simp add: initial_def)
  from sweep_exact [of "exec both healthy [Upsert rec_a, Upsert rec_b, Advance 500] initial" "''a''"]
    sweep_exact [of "exec both healthy [Upsert rec_a, Upsert rec_b, Advance 500] initial" "''b''"]
    sweep_exact [of initial "''a''"] v
  show ?thesis
    by (simp add: findById_def i)
qed

section \<open>Restoring\<close>

text \<open>
  C7, as the code has it. Whenever the stores answer (\<open>stored\<close>), \<open>restore\<close> is
  fulfilled, whatever the blobs are: a row or value that does not deserialize is passed
  over and the load goes on. Afterwards every id is looked up as the last record with
  that id among those that deserialized (the rows of the relational store first, then
  the values of the key/value store), or as it was before when no such record was
  loaded. Starting from an empty store, the ids stored are exactly the ids of the
  deserialized records, and when those ids are pairwise distinct the store holds
  exactly the deserialized records, each under its own id.
\<close>

theorem restore_last_wins:
  assumes "stored p b rows pages raws"
  shows "\<exists>w'. restored p b w = Some w' \<and>
           (\<forall>k. findById k w' =
              (case List.find (\<lambda>s. session_id s = k) (rev (deserialized p rows raws)) of
                 Some s \<Rightarrow> Some s
               | None \<Rightarrow> findById k w)) \<and>
           (sessions w = Mapping.empty \<longrightarrow>
              Mapping.keys (sessions w') = session_id ` set (deserialized p rows raws)) \<and>
           (sessions w = Mapping.empty \<and> distinct (map session_id (deserialized p rows raws)) \<longrightarrow>
              (\<forall>s. findById (session_id s) w' = Some s \<longleftrightarrow> s \<in> set (deserialized p rows raws)))"
proof -
  let ?D = "deserialized p rows raws"
  from restore_stored [OF assms, of w] obtain w'
    where r: "restored p b w = Some w'" and s: "sessions w' = insert_all ?D (sessions w)"
    by blast
  have l: "findById k w' =
      (case List.find (\<lambda>s. session_id s = k) (rev ?D) of Some s \<Rightarrow> Some s | None \<Rightarrow> findById k w)" for k
    by (simp add: findById_def s lookup_insert_all split: option.splits)
  have keys: "Mapping.keys (sessions w') = session_id ` set ?D" if "sessions w = Mapping.empty"
  proof -
    have "k \<in> Mapping.keys (sessions w') \<longleftrightarrow> k \<in> session_id ` set ?D" for k
    proof -
      have "k \<in> Mapping.keys (sessions w') \<longleftrightarrow> findById k w' \<noteq> None"
        by (simp add: findById_def keys_dom_lookup dom_def)
      also have "\<dots> \<longleftrightarrow> List.find (\<lambda>s. session_id s = k) (rev ?D) \<noteq> None"
        using that l [of k] by (auto simp: findById_def split: option.splits)
      also have "\<dots> \<longleftrightarrow> k \<in> session_id ` set ?D"
        by (auto simp: find_None_iff)
      finally show ?thesis .
    qed
    then show ?thesis by blast
  qed
  have exact: "findById (session_id s) w' = Some s \<longleftrightarrow> s \<in> set ?D"
    if "sessions w = Mapping.empty" "distinct (map session_id ?D)" for s
  proof
    assume "findById (session_id s) w' = Some s"
    with that(1) l [of "session_id s"]
    have "List.find (\<lambda>s'. session_id s' = session_id s) (rev ?D) = Some s"
      by (auto simp: findById_def split: option.splits)
    then have "s \<in> set (rev ?D)"
      by (rule find_Some_mem)
    then show "s \<in> set ?D"
      by simp
  next
    assume "s \<in> set ?D"
    with that(2) show "findById (session_id s) w' = Some s"
      by (simp add: l [of "session_id s"] find_distinct_ids)
  qed
  from r l keys exact show ?thesis by blast
qed

theorem restore_last_wins_witness:
  "stored both stocked [Some ''a/first'', Some ''{a/fir'']
     [(''17'', [''pp:session:b'']), (''0'', [])] [Some ''b/short''] \<and>
   deserialized both [Some ''a/first'', Some ''{a/fir''] [Some ''b/short''] = [rec_a, rec_b] \<and>
   sessions initial = Mapping.empty \<and>
   restored both stocked initial = Some reloaded \<and>
   findById ''a'' reloaded = Some rec_a \<and>
   findById ''b'' reloaded = Some rec_b \<and>
   findById ''{a/fir'' reloaded = None \<and>
   Mapping.keys (sessions reloaded) = {''a'', ''b''}"
proof -
  have st: "stored both stocked [Some ''a/first'', Some ''{a/fir'']
      [(''17'', [''pp:session:b'']), (''0'', [])] [Some ''b/short'']"
    by code_simp
  have r: "restored both stocked initial = Some reloaded"
    by code_simp
  have v: "deserialized both [Some ''a/first'', Some ''{a/fir''] [Some ''b/short''] = [rec_a, rec_b]"
    "session_id rec_a = ''a''" "session_id rec_b = ''b''"
    "findById ''{a/fir'' initial = None" "findById ''a'' initial = None" "findById ''b'' initial = None"
    by code_simp+
  have i: "sessions initial = Mapping.empty"
    by (simp add: initial_def)
  from restore_last_wins [OF st, of initial]
  show ?thesis
    using st by (auto simp: r v i insert_commute)
qed

theorem restore_overwrite_counterexample:
  "stored both diverged [Some ''a/first''] [(''0'', [''pp:session:a''])] [Some ''a/second''] \<and>
   deserialized both [Some ''a/first''] [Some ''a/second''] = [rec_a, rec_a2] \<and>
   rec_a \<noteq> rec_a2 \<and>
   restored both diverged initial =
     Some (initial\<lparr>sessions := Mapping.update ''a'' rec_a2 Mapping.empty,
             logs := [LogInfo ''Sessions restored from DB'' 1,
                      LogInfo ''Sessions restored from redis'' 1]\<rparr>) \<and>
   map_option (findById ''a'') (restored both diverged initial) = Some (Some rec_a2)"
  by code_simp

text \<open>
  C9. Whenever the stores answer, \<open>restore\<close> is fulfilled and has inserted every
  record that deserializes, in load order, without looking at \<open>expiresAt\<close> or at the
  clock: a deserialized record that no later one with the same id replaces is found
  under its id afterwards, also when it has expired by then, and the next tick of the
  sweeper removes it in that case.
\<close>

theorem restore_keeps_expired:
  assumes "stored p b rows pages raws"
    and "deserialized p rows raws = xs @ s # ys"
    and "\<forall>s' \<in> set ys. session_id s' \<noteq> session_id s"
  shows "\<exists>w'. restored p b w = Some w' \<and>
           sessions w' = insert_all (deserialized p rows raws) (sessions w) \<and>
           findById (session_id s) w' = Some s \<and>
           (expiresAt s \<le> clock w \<longrightarrow> findById (session_id s) (sweep w') = None)"
proof -
  from restore_stored [OF assms(1), of w] obtain w'
    where r: "restored p b w = Some w'"
      and 1: "sessions w' = insert_all (deserialized p rows raws) (sessions w)"
      and c: "clock w' = clock w"
    by blast
  have 2: "findById (session_id s) w' = Some s"
    by (simp add: findById_def 1 lookup_insert_all assms(2) find_last_unique [OF assms(3)]
        del: rev_append rev.simps)
  have "findById (session_id s) (sweep w') = None" if "expiresAt s \<le> clock w"
    using that 2 by (simp add: findById_def sweep_frame lookup_filter c)
  with r 1 2 show ?thesis by blast
qed

theorem restore_keeps_expired_witness:
  "stored both stocked [Some ''a/first'', Some ''{a/fir'']
     [(''17'', [''pp:session:b'']), (''0'', [])] [Some ''b/short''] \<and>
   deserialized both [Some ''a/first'', Some ''{a/fir''] [Some ''b/short''] = [] @ rec_a # [rec_b] \<and>
   session_id rec_b \<noteq> session_id rec_a \<and>
   expiresAt rec_a \<le> clock (initial\<lparr>clock := 6000\<rparr>) \<and>
   restored both stocked (initial\<lparr>clock := 6000\<rparr>) = Some (reloaded\<lparr>clock := 6000\<rparr>) \<and>
   findById ''a'' (reloaded\<lparr>clock := 6000\<rparr>) = Some rec_a \<and>
   findById ''a'' (sweep (reloaded\<lparr>clock := 6000\<rparr>)) = None \<and>
   findById ''b'' (reloaded\<lparr>clock := 6000\<rparr>) = Some rec_b"
proof -
  have st: "stored both stocked [Some ''a/first'', Some ''{a/fir'']
      [(''17'', [''pp:session:b'']), (''0'', [])] [Some ''b/short'']"
    by code_simp
  have d: "deserialized both [Some ''a/first'', Some ''{a/fir''] [Some ''b/short''] = [] @ rec_a # [rec_b]"
    by code_simp
  have n: "\<forall>s' \<in> set [rec_b]. session_id s' \<noteq> session_id rec_a"
    by (simp add: rec_a_def rec_b_def)
  have r: "restored both stocked (initial\<lparr>clock := 6000\<rparr>) = Some (reloaded\<lparr>clock := 6000\<rparr>)"
    by code_simp
  have v: "session_id rec_a = ''a''" "session_id rec_b = ''b''" "expiresAt rec_a = 5000"
    "findById ''b'' (reloaded\<lparr>clock := 6000\<rparr>) = Some rec_b"
    by code_simp+
  from restore_keeps_expired [OF st d n, of "initial\<lparr>clock := 6000\<rparr>"]
  show ?thesis
    using st d by (auto simp: r v)
qed

end
